theory Spec2Isabelle
  imports Main "HOL-Library.Word"
begin

section \<open>figsearch: the data model\<close>

text \<open>
  The program is \<^verbatim>\<open>src/example/figsearch/figsearch.c\<close>. Its integers are C
  \<^verbatim>\<open>unsigned\<close> values, modelled as 32-bit words: \<open>+\<close>, \<open>-\<close> and \<open>*\<close> wrap
  around as the C operators do.
\<close>

type_synonym u32 = "32 word"

text \<open>
  \<^verbatim>\<open>typedef struct { unsigned x; unsigned y; } Point;\<close>
  The fields are named \<open>px\<close> (column) and \<open>py\<close> (row) here, so that \<open>x\<close> and \<open>y\<close> stay
  free for the loop variables of the source.
\<close>

record Point =
  px :: u32
  py :: u32

text \<open>
  \<^verbatim>\<open>typedef struct { Point start; Point end; } Line;\<close>
\<close>

record Line =
  start_pt :: Point
  end_pt :: Point

text \<open>
  \<^verbatim>\<open>typedef struct { unsigned width; unsigned height; bool data[]; } Bitmap;\<close>
  The flexible array member is the list \<open>data\<close>; its length is the number of cells
  that were allocated for it.
\<close>

record Bitmap =
  width :: u32
  height :: u32
  data :: "bool list"

text \<open>
  Reading \<^verbatim>\<open>bitmap->data[index]\<close>. An index beyond the allocated cells is undefined
  behaviour in C: the model returns \<open>None\<close> there and every caller propagates it.
\<close>

definition pixel_at :: "Bitmap \<Rightarrow> u32 \<Rightarrow> bool option" where
  "pixel_at b index =
     (if unat index < length (data b) then Some (data b ! unat index) else None)"

section \<open>The line search\<close>

text \<open>
  \<^verbatim>\<open>unsigned hline_length(Point start, Point end) { return end.x - start.x + 1; }\<close>
\<close>

definition hline_length :: "Point \<Rightarrow> Point \<Rightarrow> u32" where
  "hline_length start end' = px end' - px start + 1"

text \<open>
  The locals \<^verbatim>\<open>start_final\<close>, \<^verbatim>\<open>end_final\<close> and \<^verbatim>\<open>length_final\<close> of
  \<^verbatim>\<open>find_hline\<close>. The two points are declared without an initialiser; \<open>None\<close> is
  that indeterminate value.
\<close>

record search =
  start_final :: "Point option"
  end_final :: "Point option"
  length_final :: u32

definition search_init :: search where
  "search_init = \<lparr>start_final = None, end_final = None, length_final = 0\<rparr>"

text \<open>
  The innermost loop
  \<^verbatim>\<open>
  for (unsigned i = x + 1; i < bitmap->width; i++) {
    unsigned look_index = y * bitmap->width + i;
    if (!bitmap->data[look_index]) { x = i; break; }
    end.x = i;
  }
  \<close>
  on the pair \<open>(x, end.x)\<close> that it updates.
\<close>

function extend_run :: "Bitmap \<Rightarrow> u32 \<Rightarrow> u32 \<Rightarrow> u32 \<times> u32 \<Rightarrow> (u32 \<times> u32) option" where
  "extend_run b y i (x, end_x) =
     (if i < width b then
        (case pixel_at b (y * width b + i) of
           None \<Rightarrow> None
         | Some p \<Rightarrow> if \<not> p then Some (i, end_x) else extend_run b y (i + 1) (x, i))
      else Some (x, end_x))"
  by pat_completeness auto

lemma unat_succ_less: "(i :: u32) < w \<Longrightarrow> unat (i + 1) = Suc (unat i)"
proof -
  assume "i < w"
  then have "unat i < unat w" by (simp add: word_less_nat_alt)
  moreover have "unat w < 2 ^ 32" using unsigned_less [of w] by simp
  ultimately have "unat i + unat (1 :: u32) < 2 ^ LENGTH(32)" by simp
  then have "unat (i + 1) = unat i + unat (1 :: u32)"
    by (simp only: unat_add_lem)
  then show ?thesis by simp
qed

termination extend_run
  by (relation "measure (\<lambda>(b, y, i, p). unat (width b) - unat i)")
     (auto simp: unat_succ_less word_less_nat_alt)

declare extend_run.simps [simp del]

text \<open>
  The body of the column loop at column \<open>x\<close> of row \<open>y\<close>: the value of \<open>x\<close> before
  the loop's \<^verbatim>\<open>x++\<close>, and the locals of the search.
  \<^verbatim>\<open>
  unsigned index = y * bitmap->width + x;
  if (bitmap->data[index]) {
    Point start = {x, y};
    Point end = {x, y};
    for (...) {...}
    unsigned current_length = hline_length(start, end);
    if (!length_final || current_length > length_final) {
      start_final = start; end_final = end; length_final = current_length;
    }
  }
  \<close>
\<close>

definition visit :: "Bitmap \<Rightarrow> u32 \<Rightarrow> u32 \<Rightarrow> search \<Rightarrow> (u32 \<times> search) option" where
  "visit b y x s =
     (case pixel_at b (y * width b + x) of
        None \<Rightarrow> None
      | Some p \<Rightarrow>
          if p then
            (case extend_run b y (x + 1) (x, x) of
               None \<Rightarrow> None
             | Some (x', end_x) \<Rightarrow>
                 let start = \<lparr>px = x, py = y\<rparr>;
                     end' = \<lparr>px = end_x, py = y\<rparr>;
                     current_length = hline_length start end'
                 in Some (x',
                      if length_final s = 0 \<or> current_length > length_final s
                      then \<lparr>start_final = Some start, end_final = Some end',
                            length_final = current_length\<rparr>
                      else s))
          else Some (x, s))"

lemma extend_run_x:
  "extend_run b y i (x, e) = Some (x', e') \<Longrightarrow> x' = x \<or> x' < width b"
proof (induction b y i "(x, e)" arbitrary: e rule: extend_run.induct)
  case (1 b y i e)
  from "1.prems" "1.hyps" show ?case
    by (subst (asm) extend_run.simps) (auto split: if_splits option.splits)
qed

lemma extend_run_x_ge:
  "extend_run b y i (x, e) = Some (x', e') \<Longrightarrow> x \<le> i \<Longrightarrow> x \<le> x'"
proof (induction b y i "(x, e)" arbitrary: e rule: extend_run.induct)
  case (1 b y i e)
  show ?case
  proof (cases "i < width b")
    case True
    then have "unat (i + 1) = Suc (unat i)" by (rule unat_succ_less)
    with \<open>x \<le> i\<close> have "x \<le> i + 1" by (simp add: word_le_nat_alt)
    with "1.prems" "1.hyps" True show ?thesis
      by (subst (asm) extend_run.simps) (auto split: if_splits option.splits)
  next
    case False
    with "1.prems" show ?thesis
      by (subst (asm) extend_run.simps) simp
  qed
qed

lemma visit_x:
  assumes "visit b y x s = Some (x', s')" and "x < bound"
  shows "x \<le> x' \<and> (x' = x \<or> x' < width b)"
proof (cases "pixel_at b (y * width b + x)")
  case None
  with assms show ?thesis by (simp add: visit_def)
next
  case (Some p)
  show ?thesis
  proof (cases p)
    case False
    with Some assms show ?thesis by (simp add: visit_def)
  next
    case True
    with Some assms obtain e where r: "extend_run b y (x + 1) (x, x) = Some (x', e)"
      by (auto simp: visit_def Let_def split: option.splits)
    from extend_run_x [OF r] have a: "x' = x \<or> x' < width b" .
    from \<open>x < bound\<close> have "unat (x + 1) = Suc (unat x)" by (rule unat_succ_less)
    then have "x \<le> x + 1" by (simp add: word_le_nat_alt)
    from extend_run_x_ge [OF r this] a show ?thesis by simp
  qed
qed

text \<open>
  The column loop of row \<open>y\<close>, entered at column \<open>x\<close>:
  \<^verbatim>\<open>for (unsigned x = 0; x < bitmap->width - length_final; x++) {...}\<close>
  The bound is evaluated again at every iteration, in unsigned arithmetic.
\<close>

function row_loop :: "Bitmap \<Rightarrow> u32 \<Rightarrow> u32 \<Rightarrow> search \<Rightarrow> search option" where
  "row_loop b y x s =
     (if x < width b - length_final s then
        (case visit b y x s of
           None \<Rightarrow> None
         | Some (x', s') \<Rightarrow> row_loop b y (x' + 1) s')
      else Some s)"
  by pat_completeness auto

termination row_loop
proof (relation "measure (\<lambda>(b, y, x, s). 2 ^ 32 - unat x)", simp, clarsimp)
  fix b y x s x' s'
  assume lt: "x < width b - length_final s" and v: "visit b y x s = Some (x', s')"
  from visit_x [OF v lt] have ge: "x \<le> x'" and alt: "x' = x \<or> x' < width b" by simp_all
  from alt lt have "unat (x' + 1) = Suc (unat x')"
    by (auto simp: unat_succ_less)
  moreover have "unat x' < 2 ^ 32" using unsigned_less [of x'] by simp
  ultimately show "4294967296 - unat (x' + 1) < 4294967296 - unat x"
    using ge by (simp add: word_le_nat_alt)
qed

declare row_loop.simps [simp del]

text \<open>
  The row loop: \<^verbatim>\<open>for (unsigned y = 0; y < bitmap->height; y++) {...}\<close>
\<close>

function col_loop :: "Bitmap \<Rightarrow> u32 \<Rightarrow> search \<Rightarrow> search option" where
  "col_loop b y s =
     (if y < height b then
        (case row_loop b y 0 s of
           None \<Rightarrow> None
         | Some s' \<Rightarrow> col_loop b (y + 1) s')
      else Some s)"
  by pat_completeness auto

termination col_loop
  by (relation "measure (\<lambda>(b, y, s). unat (height b) - unat y)")
     (auto simp: unat_succ_less word_less_nat_alt)

declare col_loop.simps [simp del]

text \<open>
  \<^verbatim>\<open>int find_hline(Bitmap *bitmap, Line *line)\<close>: the return value, and the line
  written through \<^verbatim>\<open>line\<close> (\<open>None\<close> when nothing is written). The outer \<open>None\<close> is
  undefined behaviour: a read outside \<open>data\<close>, or a read of a point that was never
  assigned.
\<close>

definition find_hline :: "Bitmap \<Rightarrow> (int \<times> Line option) option" where
  "find_hline b =
     (case col_loop b 0 search_init of
        None \<Rightarrow> None
      | Some s \<Rightarrow>
          if length_final s \<noteq> 0 then
            (case (start_final s, end_final s) of
               (Some st, Some en) \<Rightarrow> Some (0, Some \<lparr>start_pt = st, end_pt = en\<rparr>)
             | _ \<Rightarrow> None)
          else Some (1, None))"

section \<open>The input source\<close>

text \<open>
  An open \<^verbatim>\<open>FILE *\<close> is the text that is still to be read. A call of \<^verbatim>\<open>fscanf\<close> with one
  conversion either converts an input item and leaves the rest of the text, or fails to
  match (the call then returns 0 or \<^verbatim>\<open>EOF\<close>), or reads an integer that the object
  cannot hold, which the C standard leaves undefined.
\<close>

datatype 'a scanned = Scanned 'a string | Mismatch | Unrepresentable

definition isspace :: "char \<Rightarrow> bool" where
  "isspace c \<longleftrightarrow> c \<in> set [CHR '' '', CHR 0x09, CHR 0x0A, CHR 0x0B, CHR 0x0C, CHR 0x0D]"

definition isdigit :: "char \<Rightarrow> bool" where
  "isdigit c \<longleftrightarrow> c \<in> set ''0123456789''"

definition digit_value :: "char \<Rightarrow> nat" where
  "digit_value c = of_char c - 48"

definition decimal :: "string \<Rightarrow> nat" where
  "decimal ds = foldl (\<lambda>n c. 10 * n + digit_value c) 0 ds"

text \<open>
  The input item of \<^verbatim>\<open>%d\<close> and of \<^verbatim>\<open>%u\<close>: white space is skipped, then an optional
  sign and the longest run of decimal digits are read; without a digit nothing matches.
  The result is the sign, the magnitude and the text left.
\<close>

definition scan_integer :: "string \<Rightarrow> (bool \<times> nat \<times> string) option" where
  "scan_integer s =
     (let s1 = dropWhile isspace s;
          (neg, s2) =
            (case s1 of
               [] \<Rightarrow> (False, s1)
             | c # t \<Rightarrow>
                 if c = CHR ''-'' then (True, t)
                 else if c = CHR ''+'' then (False, t)
                 else (False, s1));
          ds = takeWhile isdigit s2
      in if ds = [] then None else Some (neg, decimal ds, dropWhile isdigit s2))"

text \<open>\<^verbatim>\<open>fscanf(file, "%d", &pixel)\<close> with \<^verbatim>\<open>int pixel\<close>.\<close>

definition scan_d :: "string \<Rightarrow> int scanned" where
  "scan_d s =
     (case scan_integer s of
        None \<Rightarrow> Mismatch
      | Some (neg, n, rest) \<Rightarrow>
          let v = (if neg then - int n else int n)
          in if - (2 ^ 31) \<le> v \<and> v < 2 ^ 31 then Scanned v rest else Unrepresentable)"

text \<open>
  One \<^verbatim>\<open>%u\<close> conversion into an \<^verbatim>\<open>unsigned\<close>. As for \<^verbatim>\<open>strtoul\<close>, a minus sign
  negates the value in the unsigned type.
\<close>

definition scan_u :: "string \<Rightarrow> u32 scanned" where
  "scan_u s =
     (case scan_integer s of
        None \<Rightarrow> Mismatch
      | Some (neg, n, rest) \<Rightarrow>
          if n < 2 ^ 32 then Scanned (if neg then - of_nat n else of_nat n) rest
          else Unrepresentable)"

text \<open>
  \<^verbatim>\<open>fscanf(file, "%u %u", &height, &width)\<close>. \<open>Scanned\<close> is the return value 2; with
  any smaller return value the source takes the same branch. The white space directive
  between the two conversions skips what the second conversion skips anyway.
\<close>

definition scan_u_u :: "string \<Rightarrow> (u32 \<times> u32) scanned" where
  "scan_u_u s =
     (case scan_u s of
        Scanned height' r \<Rightarrow>
          (case scan_u r of
             Scanned width' r' \<Rightarrow> Scanned (height', width') r'
           | Mismatch \<Rightarrow> Mismatch
           | Unrepresentable \<Rightarrow> Unrepresentable)
      | Mismatch \<Rightarrow> Mismatch
      | Unrepresentable \<Rightarrow> Unrepresentable)"

section \<open>The loader\<close>

text \<open>
  What the program sees of its environment: the files that \<^verbatim>\<open>fopen(filename, "r")\<close> can
  open, with their text; the sizes for which \<^verbatim>\<open>malloc\<close> returns a block; and the
  indeterminate content of a fresh block.
\<close>

record env =
  files :: "string \<Rightarrow> string option"
  malloc_ok :: "nat \<Rightarrow> bool"
  uninit :: "nat \<Rightarrow> bool"

text \<open>
  \<^verbatim>\<open>
  Bitmap *create_bitmap(unsigned width, unsigned height) {
    size_t size = sizeof(Bitmap) + width * height * sizeof(bool);
    Bitmap *bitmap = (Bitmap *)malloc(size);
    if (bitmap) { bitmap->width = width; bitmap->height = height; }
    return bitmap;
  }
  \<close>
  The product \<^verbatim>\<open>width * height\<close> is an \<^verbatim>\<open>unsigned\<close> product and wraps around;
  \<^verbatim>\<open>sizeof(Bitmap)\<close> is 8 and \<^verbatim>\<open>sizeof(bool)\<close> is 1, and \<^verbatim>\<open>size_t\<close> is wide enough
  for the sum. The block has room for \<^verbatim>\<open>width * height\<close> cells.
\<close>

definition create_bitmap :: "env \<Rightarrow> u32 \<Rightarrow> u32 \<Rightarrow> Bitmap option" where
  "create_bitmap e width' height' =
     (let size = 8 + unat (width' * height') * 1
      in if malloc_ok e size
         then Some \<lparr>width = width', height = height',
                    data = map (uninit e) [0..<unat (width' * height')]\<rparr>
         else None)"

datatype load_error =
    File_not_found
  | Invalid_file_format
  | Invalid_bitmap_size
  | Memory_allocation_failed
  | Invalid_pixel_value
  | Undefined_conversion

text \<open>
  The pixel loop of \<^verbatim>\<open>load_bitmap\<close>:
  \<^verbatim>\<open>
  for (unsigned index = 0; index < bitmap_area; index++) {
    int pixel;
    if (fscanf(file, "%d", &pixel) != 1 || (pixel != 0 && pixel != 1)) {
      ...; fprintf(stderr, "Invalid pixel value\n"); return NULL;
    }
    bitmap->data[index] = pixel;
  }
  \<close>
\<close>

function load_pixels :: "u32 \<Rightarrow> u32 \<Rightarrow> string \<Rightarrow> Bitmap \<Rightarrow> load_error + Bitmap" where
  "load_pixels bitmap_area index file bitmap =
     (if index < bitmap_area then
        (case scan_d file of
           Scanned pixel rest \<Rightarrow>
             if pixel \<noteq> 0 \<and> pixel \<noteq> 1 then Inl Invalid_pixel_value
             else load_pixels bitmap_area (index + 1) rest
                    (bitmap\<lparr>data := (data bitmap)[unat index := (pixel \<noteq> 0)]\<rparr>)
         | Mismatch \<Rightarrow> Inl Invalid_pixel_value
         | Unrepresentable \<Rightarrow> Inl Undefined_conversion)
      else Inr bitmap)"
  by pat_completeness auto

termination load_pixels
  by (relation "measure (\<lambda>(bitmap_area, index, file, bitmap). unat bitmap_area - unat index)")
     (auto simp: unat_succ_less word_less_nat_alt)

declare load_pixels.simps [simp del]

text \<open>
  \<^verbatim>\<open>Bitmap *load_bitmap(const char *filename)\<close>: the bitmap, or the failure that the
  source reports on \<^verbatim>\<open>stderr\<close> before it returns \<^verbatim>\<open>NULL\<close>.
\<close>

definition load_bitmap :: "env \<Rightarrow> string \<Rightarrow> load_error + Bitmap" where
  "load_bitmap e filename =
     (case files e filename of
        None \<Rightarrow> Inl File_not_found
      | Some file \<Rightarrow>
          (case scan_u_u file of
             Mismatch \<Rightarrow> Inl Invalid_file_format
           | Unrepresentable \<Rightarrow> Inl Undefined_conversion
           | Scanned (height', width') rest \<Rightarrow>
               if width' \<le> 0 \<or> height' \<le> 0 then Inl Invalid_bitmap_size
               else
                 (case create_bitmap e width' height' of
                    None \<Rightarrow> Inl Memory_allocation_failed
                  | Some bitmap \<Rightarrow> load_pixels (width' * height') 0 rest bitmap)))"

definition newline :: string where
  "newline = [CHR 0x0A]"

definition load_message :: "load_error \<Rightarrow> string" where
  "load_message err =
     (case err of
        File_not_found \<Rightarrow> ''File not found'' @ newline
      | Invalid_file_format \<Rightarrow> ''Invalid file format'' @ newline
      | Invalid_bitmap_size \<Rightarrow> ''Invalid bitmap size'' @ newline
      | Memory_allocation_failed \<Rightarrow> ''Memory allocation failed'' @ newline
      | Invalid_pixel_value \<Rightarrow> ''Invalid pixel value'' @ newline
      | Undefined_conversion \<Rightarrow> [])"

section \<open>The command line\<close>

text \<open>The conversion \<^verbatim>\<open>%u\<close> of \<^verbatim>\<open>printf\<close>: decimal digits, no leading zero.\<close>

definition digit_char :: "nat \<Rightarrow> char" where
  "digit_char d = ''0123456789'' ! d"

fun show_nat :: "nat \<Rightarrow> string" where
  "show_nat n =
     (if n < 10 then [digit_char n]
      else show_nat (n div 10) @ [digit_char (n mod 10)])"

declare show_nat.simps [simp del]

definition show_u :: "u32 \<Rightarrow> string" where
  "show_u w = show_nat (unat w)"

text \<open>
  \<^verbatim>\<open>printf("%u %u %u %u\n", line->start.y, line->start.x, line->end.y, line->end.x);\<close>
\<close>

definition print_line :: "Line \<Rightarrow> string" where
  "print_line line =
     show_u (py (start_pt line)) @ '' '' @ show_u (px (start_pt line)) @ '' '' @
     show_u (py (end_pt line)) @ '' '' @ show_u (px (end_pt line)) @ newline"

definition print_help :: string where
  "print_help =
     ''Usage: figsearch COMMAND [FILE]'' @ newline @
     ''Commands:'' @ newline @
     ''  --help   Display this help message'' @ newline @
     ''  test     Check if the file contains valid bitmap'' @ newline @
     ''  hline    Find longest horizontal line'' @ newline"

text \<open>
  A run of the program: its exit status with what it wrote to \<^verbatim>\<open>stdout\<close> and to
  \<^verbatim>\<open>stderr\<close>, or undefined behaviour.
\<close>

datatype outcome = Exit int string string | Undefined

definition load_failure :: "load_error \<Rightarrow> outcome" where
  "load_failure err =
     (if err = Undefined_conversion then Undefined else Exit 1 [] (load_message err))"

text \<open>
  \<^verbatim>\<open>
  int test_bitmap(const char *filename) {
    Bitmap *bitmap = load_bitmap(filename);
    if (!bitmap) return 1;
    free_bitmap(bitmap);
    return 0;
  }
  \<close>
\<close>

definition test_bitmap :: "env \<Rightarrow> string \<Rightarrow> outcome" where
  "test_bitmap e filename =
     (case load_bitmap e filename of
        Inl err \<Rightarrow> load_failure err
      | Inr bitmap \<Rightarrow> Exit 0 [] [])"

text \<open>
  \<^verbatim>\<open>
  const char *get_filename(int argc, char const *argv[]) {
    if (argc > 2) return argv[2];
    return NULL;
  }
  \<close>
\<close>

definition get_filename :: "string list \<Rightarrow> string option" where
  "get_filename argv = (if length argv > 2 then Some (argv ! 2) else None)"

text \<open>
  \<^verbatim>\<open>int main(int argc, char const *argv[])\<close>, with \<open>argc = length argv\<close>.
\<close>

definition main :: "env \<Rightarrow> string list \<Rightarrow> outcome" where
  "main e argv =
     (if length argv < 2 \<or> length argv > 3 then Exit 1 [] (''Invalid arguments'' @ newline)
      else if argv ! 1 = ''--help'' then Exit 0 print_help []
      else
        let filename = get_filename argv in
        if argv ! 1 = ''test'' then
          (case filename of
             None \<Rightarrow> Exit 1 [] (''Filename required'' @ newline)
           | Some f \<Rightarrow> test_bitmap e f)
        else if argv ! 1 = ''hline'' then
          (case filename of
             None \<Rightarrow> Exit 1 [] (''Filename required'' @ newline)
           | Some f \<Rightarrow>
               (case load_bitmap e f of
                  Inl err \<Rightarrow> load_failure err
                | Inr bitmap \<Rightarrow>
                    (case find_hline bitmap of
                       None \<Rightarrow> Undefined
                     | Some (result, line) \<Rightarrow>
                         if result = 0 then
                           (case line of
                              None \<Rightarrow> Undefined
                            | Some l \<Rightarrow> Exit 0 (print_line l) [])
                         else Exit 1 [] (''No line found'' @ newline))))
        else Exit 1 [] (''Invalid command'' @ newline))"

section \<open>Grids, cells and runs\<close>

text \<open>
  The cell of row \<open>y\<close>, column \<open>x\<close>, read as the source reads it:
  \<^verbatim>\<open>bitmap->data[y * bitmap->width + x]\<close>, the index computed in unsigned arithmetic.
  In a grid of at most \<open>2^32\<close> cells the index does not wrap around and is the position
  \<open>y * width + x\<close> of the row-major order (lemma \<open>row_major_index\<close>); a valid grid that
  the loader returns has fewer than \<open>2^32\<close> cells (lemma \<open>loaded_grid_small\<close>).
\<close>

definition cell :: "Bitmap \<Rightarrow> u32 \<Rightarrow> u32 \<Rightarrow> bool" where
  "cell b y x = data b ! unat (y * width b + x)"

text \<open>
  A valid grid: both dimensions positive and one cell for every pair of a row and a
  column.
\<close>

definition valid_bitmap :: "Bitmap \<Rightarrow> bool" where
  "valid_bitmap b \<longleftrightarrow>
     0 < width b \<and> 0 < height b \<and> length (data b) = unat (width b) * unat (height b)"

text \<open>
  A horizontal run of set cells: the columns \<open>a..c\<close> of row \<open>y\<close>, all inside the grid
  and all set. Its length is \<open>c - a + 1\<close>.
\<close>

definition is_run :: "Bitmap \<Rightarrow> u32 \<Rightarrow> u32 \<Rightarrow> u32 \<Rightarrow> bool" where
  "is_run b y a c \<longleftrightarrow>
     y < height b \<and> a \<le> c \<and> c < width b \<and> (\<forall>j. a \<le> j \<and> j \<le> c \<longrightarrow> cell b y j)"

definition run_length :: "u32 \<Rightarrow> u32 \<Rightarrow> nat" where
  "run_length a c = unat c - unat a + 1"

text \<open>
  Scan order: rows top to bottom, and columns left to right inside a row.
  \<open>before y' a y x\<close> says that the scan reaches column \<open>a\<close> of row \<open>y'\<close> before
  column \<open>x\<close> of row \<open>y\<close>.
\<close>

definition before :: "u32 \<Rightarrow> u32 \<Rightarrow> u32 \<Rightarrow> u32 \<Rightarrow> bool" where
  "before y' a y x \<longleftrightarrow> y' < y \<or> (y' = y \<and> a < x)"

text \<open>
  A line that is a maximal horizontal run: it lies on one row, its cells are set, and the
  cell before its start and the cell after its end are unset or outside the grid.
\<close>

definition is_maximal_run :: "Bitmap \<Rightarrow> Line \<Rightarrow> bool" where
  "is_maximal_run b l \<longleftrightarrow>
     py (start_pt l) = py (end_pt l) \<and> px (start_pt l) \<le> px (end_pt l) \<and>
     is_run b (py (start_pt l)) (px (start_pt l)) (px (end_pt l)) \<and>
     (px (start_pt l) = 0 \<or> \<not> cell b (py (start_pt l)) (px (start_pt l) - 1)) \<and>
     (px (end_pt l) + 1 = width b \<or> \<not> cell b (py (start_pt l)) (px (end_pt l) + 1))"

definition has_set_cell :: "Bitmap \<Rightarrow> bool" where
  "has_set_cell b \<longleftrightarrow> (\<exists>y x. y < height b \<and> x < width b \<and> cell b y x)"

text \<open>
  The loop invariant of the search: the locals hold the first longest run among the
  runs that start before column \<open>x\<close> of row \<open>y\<close> in scan order, and
  \<open>length_final\<close> is zero when there is none.
\<close>

definition best_before :: "Bitmap \<Rightarrow> search \<Rightarrow> u32 \<Rightarrow> u32 \<Rightarrow> bool" where
  "best_before b s y x \<longleftrightarrow>
     (if length_final s = 0 then (\<forall>y' a c. is_run b y' a c \<longrightarrow> \<not> before y' a y x)
      else (\<exists>sx ex sy.
              start_final s = Some \<lparr>px = sx, py = sy\<rparr> \<and>
              end_final s = Some \<lparr>px = ex, py = sy\<rparr> \<and>
              is_run b sy sx ex \<and> before sy sx y x \<and>
              (ex + 1 = width b \<or> \<not> cell b sy (ex + 1)) \<and>
              unat (length_final s) = run_length sx ex \<and>
              (\<forall>y' a c. is_run b y' a c \<and> before y' a y x \<longrightarrow>
                 run_length a c \<le> run_length sx ex \<and>
                 (run_length a c = run_length sx ex \<longrightarrow> \<not> before y' a sy sx))))"

section \<open>The evaluations of the loop bound\<close>

text \<open>
  The evaluations of the condition \<^verbatim>\<open>x < bitmap->width - length_final\<close> during a call of
  \<open>find_hline\<close>, as a step relation: \<open>cond_evaluated b y x s\<close> says that the condition is
  evaluated in row \<open>y\<close> at column \<open>x\<close> with the locals \<open>s\<close>. The first evaluation is at the
  entry of row 0; after an evaluation that holds, the body runs and the next evaluation
  follows the \<^verbatim>\<open>x++\<close>; after one that fails, the next row is entered if there is one.
\<close>

inductive cond_evaluated :: "Bitmap \<Rightarrow> u32 \<Rightarrow> u32 \<Rightarrow> search \<Rightarrow> bool" for b :: Bitmap where
  enter: "0 < height b \<Longrightarrow> cond_evaluated b 0 0 search_init"
| next_column:
    "cond_evaluated b y x s \<Longrightarrow> x < width b - length_final s \<Longrightarrow>
     visit b y x s = Some (x', s') \<Longrightarrow> cond_evaluated b y (x' + 1) s'"
| next_row:
    "cond_evaluated b y x s \<Longrightarrow> \<not> x < width b - length_final s \<Longrightarrow>
     y + 1 < height b \<Longrightarrow> cond_evaluated b (y + 1) 0 s"

code_pred cond_evaluated .

section \<open>A scan without the skips\<close>

text \<open>
  The reference for the two shortcuts of \<open>find_hline\<close>: the same scan, but the column loop
  visits every column of the row (its bound is \<^verbatim>\<open>bitmap->width\<close>), and the extension of a
  run does not move \<open>x\<close>, so that the next column visited is always \<open>x + 1\<close>. The best run
  is replaced on strict improvement only, as in the source.
\<close>

function naive_extend :: "Bitmap \<Rightarrow> u32 \<Rightarrow> u32 \<Rightarrow> u32 \<Rightarrow> u32 option" where
  "naive_extend b y i end_x =
     (if i < width b then
        (case pixel_at b (y * width b + i) of
           None \<Rightarrow> None
         | Some p \<Rightarrow> if \<not> p then Some end_x else naive_extend b y (i + 1) i)
      else Some end_x)"
  by pat_completeness auto

termination naive_extend
  by (relation "measure (\<lambda>(b, y, i, e). unat (width b) - unat i)")
     (auto simp: unat_succ_less word_less_nat_alt)

declare naive_extend.simps [simp del]

definition naive_visit :: "Bitmap \<Rightarrow> u32 \<Rightarrow> u32 \<Rightarrow> search \<Rightarrow> search option" where
  "naive_visit b y x s =
     (case pixel_at b (y * width b + x) of
        None \<Rightarrow> None
      | Some p \<Rightarrow>
          if p then
            (case naive_extend b y (x + 1) x of
               None \<Rightarrow> None
             | Some end_x \<Rightarrow>
                 let start = \<lparr>px = x, py = y\<rparr>;
                     end' = \<lparr>px = end_x, py = y\<rparr>;
                     current_length = hline_length start end'
                 in Some (if length_final s = 0 \<or> current_length > length_final s
                          then \<lparr>start_final = Some start, end_final = Some end',
                                length_final = current_length\<rparr>
                          else s))
          else Some s)"

function naive_row :: "Bitmap \<Rightarrow> u32 \<Rightarrow> u32 \<Rightarrow> search \<Rightarrow> search option" where
  "naive_row b y x s =
     (if x < width b then
        (case naive_visit b y x s of
           None \<Rightarrow> None
         | Some s' \<Rightarrow> naive_row b y (x + 1) s')
      else Some s)"
  by pat_completeness auto

termination naive_row
  by (relation "measure (\<lambda>(b, y, x, s). unat (width b) - unat x)")
     (auto simp: unat_succ_less word_less_nat_alt)

declare naive_row.simps [simp del]

function naive_rows :: "Bitmap \<Rightarrow> u32 \<Rightarrow> search \<Rightarrow> search option" where
  "naive_rows b y s =
     (if y < height b then
        (case naive_row b y 0 s of
           None \<Rightarrow> None
         | Some s' \<Rightarrow> naive_rows b (y + 1) s')
      else Some s)"
  by pat_completeness auto

termination naive_rows
  by (relation "measure (\<lambda>(b, y, s). unat (height b) - unat y)")
     (auto simp: unat_succ_less word_less_nat_alt)

declare naive_rows.simps [simp del]

definition naive_hline :: "Bitmap \<Rightarrow> (int \<times> Line option) option" where
  "naive_hline b =
     (case naive_rows b 0 search_init of
        None \<Rightarrow> None
      | Some s \<Rightarrow>
          if length_final s \<noteq> 0 then
            (case (start_final s, end_final s) of
               (Some st, Some en) \<Rightarrow> Some (0, Some \<lparr>start_pt = st, end_pt = en\<rparr>)
             | _ \<Rightarrow> None)
          else Some (1, None))"

section \<open>The pixel tokens of a source\<close>

text \<open>
  The pixel tokens of a source: the values of its next \<open>n\<close> conversions \<^verbatim>\<open>%d\<close>, in the
  order of the text, with the text that is left after them. The tokens end at the first
  conversion that does not match or that cannot be represented.
\<close>

fun pixel_tokens :: "nat \<Rightarrow> string \<Rightarrow> int list scanned" where
  "pixel_tokens 0 src = Scanned [] src"
| "pixel_tokens (Suc n) src =
     (case scan_d src of
        Scanned v rest \<Rightarrow>
          (case pixel_tokens n rest of
             Scanned vs r \<Rightarrow> Scanned (v # vs) r
           | Mismatch \<Rightarrow> Mismatch
           | Unrepresentable \<Rightarrow> Unrepresentable)
      | Mismatch \<Rightarrow> Mismatch
      | Unrepresentable \<Rightarrow> Unrepresentable)"

text \<open>
  The pixel loop as a function of the number of pixels still to read: the values of the
  next \<open>n\<close> conversions \<^verbatim>\<open>%d\<close>, each 0 or 1, in the order of the text.
\<close>

fun read_pixels :: "nat \<Rightarrow> string \<Rightarrow> load_error + bool list" where
  "read_pixels 0 file = Inr []"
| "read_pixels (Suc n) file =
     (case scan_d file of
        Scanned pixel rest \<Rightarrow>
          if pixel \<noteq> 0 \<and> pixel \<noteq> 1 then Inl Invalid_pixel_value
          else (case read_pixels n rest of
                  Inl err \<Rightarrow> Inl err
                | Inr ps \<Rightarrow> Inr ((pixel \<noteq> 0) # ps))
      | Mismatch \<Rightarrow> Inl Invalid_pixel_value
      | Unrepresentable \<Rightarrow> Inl Undefined_conversion)"


section \<open>Grids and environments of the scenarios\<close>

text \<open>
  The grid of the scenario \<^verbatim>\<open>"2 3\n0 1 1\n1 1 1"\<close>: two rows of three cells.
\<close>

definition example_grid :: Bitmap where
  "example_grid = \<lparr>width = 3, height = 2, data = [False, True, True, True, True, True]\<rparr>"

text \<open>The grid of the scenario \<^verbatim>\<open>"1 1\n0"\<close>: one unset cell.\<close>

definition blank_grid :: Bitmap where
  "blank_grid = \<lparr>width = 1, height = 1, data = [False]\<rparr>"

text \<open>A grid with three runs of length 1: two in row 0 and one in row 1.\<close>

definition tie_grid :: Bitmap where
  "tie_grid = \<lparr>width = 3, height = 2, data = [True, False, True, True, False, False]\<rparr>"

text \<open>
  An environment for the scenarios: the file \<^verbatim>\<open>grid.txt\<close> holds \<^verbatim>\<open>"2 3\n0 1 1\n1 1 1"\<close>,
  \<^verbatim>\<open>blank.txt\<close> holds \<^verbatim>\<open>"1 1\n0"\<close>, \<^verbatim>\<open>short.txt\<close> holds \<^verbatim>\<open>"2 2\n1 0\n1"\<close>, \<^verbatim>\<open>plus.txt\<close>
  holds \<^verbatim>\<open>"1 1\n+1"\<close> and \<^verbatim>\<open>big.txt\<close> holds \<^verbatim>\<open>"65536 65536"\<close>; no other file can be
  opened, and every allocation succeeds.
\<close>

definition scenario_env :: env where
  "scenario_env =
     \<lparr>files = (\<lambda>f. if f = ''grid.txt''
                      then Some (''2 3'' @ newline @ ''0 1 1'' @ newline @ ''1 1 1'')
                      else if f = ''blank.txt'' then Some (''1 1'' @ newline @ ''0'')
                      else if f = ''short.txt'' then Some (''2 2'' @ newline @ ''1 0'' @ newline @ ''1'')
                      else if f = ''plus.txt'' then Some (''1 1'' @ newline @ ''+1'')
                      else if f = ''big.txt'' then Some ''65536 65536''
                      else None),
      malloc_ok = (\<lambda>n. True), uninit = (\<lambda>i. False)\<rparr>"



section \<open>Lemmas\<close>

lemma unat_lt_2p32: "unat (w :: u32) < 4294967296"
  using unsigned_less [of w] by simp

lemma row_major_index:
  assumes "unat (width b) * unat (height b) \<le> 4294967296" "y < height b" "x < width b"
  shows "unat (y * width b + x) = unat y * unat (width b) + unat x"
proof -
  from assms have yx: "unat y < unat (height b)" "unat x < unat (width b)"
    by (simp_all add: word_less_nat_alt)
  then have "unat y * unat (width b) + unat x < (unat y + 1) * unat (width b)" by simp
  also from yx have "\<dots> \<le> unat (height b) * unat (width b)"
    by (intro mult_le_mono1) simp
  finally have lt: "unat y * unat (width b) + unat x < 4294967296"
    using assms(1) by (simp add: mult.commute)
  then have "unat y * unat (width b) < 4294967296" by simp
  then have "unat (y * width b) = unat y * unat (width b)"
    by (simp add: unat_word_ariths)
  with lt show ?thesis by (simp add: unat_word_ariths)
qed

lemma index_in_range:
  assumes "valid_bitmap b" "y < height b" "x < width b"
  shows "unat (y * width b + x) < length (data b)"
proof (cases "unat (width b) * unat (height b) \<le> 4294967296")
  case True
  from assms have yx: "unat y < unat (height b)" "unat x < unat (width b)"
    by (simp_all add: word_less_nat_alt)
  then have "unat y * unat (width b) + unat x < (unat y + 1) * unat (width b)" by simp
  also from yx have "\<dots> \<le> unat (height b) * unat (width b)"
    by (intro mult_le_mono1) simp
  finally have "unat y * unat (width b) + unat x < unat (width b) * unat (height b)"
    by (simp add: mult.commute)
  with row_major_index [OF True assms(2,3)] assms(1) show ?thesis
    by (simp add: valid_bitmap_def)
next
  case False
  with assms(1) unat_lt_2p32 [of "y * width b + x"] show ?thesis
    by (simp add: valid_bitmap_def)
qed

lemma pixel_at_cell:
  "valid_bitmap b \<Longrightarrow> y < height b \<Longrightarrow> x < width b \<Longrightarrow>
     pixel_at b (y * width b + x) = Some (cell b y x)"
  by (simp add: pixel_at_def cell_def index_in_range)

lemma word_succ_le_iff: "(e :: u32) < w \<Longrightarrow> j \<le> e + 1 \<longleftrightarrow> j \<le> e \<or> j = e + 1"
  using unat_succ_less [of e w]
  by (auto simp: word_le_nat_alt word_unat_eq_iff)

lemma word_less_succ_iff: "(e :: u32) < w \<Longrightarrow> j < e + 1 \<longleftrightarrow> j \<le> e"
  using unat_succ_less [of e w]
  by (auto simp: word_le_nat_alt word_less_nat_alt)

lemma word_succ_le: "(e :: u32) < w \<Longrightarrow> e + 1 \<le> w"
  using unat_succ_less [of e w]
  by (auto simp: word_le_nat_alt word_less_nat_alt)

lemma extend_run_spec:
  shows "valid_bitmap b \<Longrightarrow> y < height b \<Longrightarrow> i = e + 1 \<Longrightarrow> x \<le> e \<Longrightarrow> e < width b \<Longrightarrow>
         (\<forall>j. x \<le> j \<and> j \<le> e \<longrightarrow> cell b y j) \<Longrightarrow>
         \<exists>x' e'. extend_run b y i (x, e) = Some (x', e') \<and> e \<le> e' \<and> e' < width b \<and>
           (\<forall>j. x \<le> j \<and> j \<le> e' \<longrightarrow> cell b y j) \<and>
           (e' + 1 = width b \<and> x' = x \<or>
            e' + 1 < width b \<and> \<not> cell b y (e' + 1) \<and> x' = e' + 1)"
proof (induction b y i "(x, e)" arbitrary: e rule: extend_run.induct)
  case (1 b y i e)
  from "1.prems" have valid: "valid_bitmap b" and y: "y < height b" and i: "i = e + 1" and xe: "x \<le> e" and e: "e < width b"
    and run: "\<forall>j. x \<le> j \<and> j \<le> e \<longrightarrow> cell b y j" by simp_all
  from e have ile: "i \<le> width b" unfolding i by (rule word_succ_le)
  show ?case
  proof (cases "i < width b")
    case False
    with ile have "i = width b" by simp
    with False e xe run i show ?thesis
      by (subst extend_run.simps) simp
  next
    case True
    then have px: "pixel_at b (y * width b + i) = Some (cell b y i)"
      using valid y by (simp add: pixel_at_cell)
    show ?thesis
    proof (cases "cell b y i")
      case False
      with True px e xe run i show ?thesis
        by (subst extend_run.simps) simp
    next
      case c: True
      from e have ei: "e \<le> i" "e < i" unfolding i
        by (simp_all add: word_less_succ_iff word_succ_le_iff)
      with xe have xi: "x \<le> i" by simp
      have run': "\<forall>j. x \<le> j \<and> j \<le> i \<longrightarrow> cell b y j"
        using run c e unfolding i by (auto simp: word_succ_le_iff)
      from "1.hyps" [OF True px _ valid y refl xi True run'] c
      obtain x' e' where r: "extend_run b y (i + 1) (x, i) = Some (x', e')"
        and rest: "i \<le> e'" "e' < width b" "\<forall>j. x \<le> j \<and> j \<le> e' \<longrightarrow> cell b y j"
          "e' + 1 = width b \<and> x' = x \<or> e' + 1 < width b \<and> \<not> cell b y (e' + 1) \<and> x' = e' + 1"
        by auto
      from True px c r have "extend_run b y i (x, e) = Some (x', e')"
        by (subst extend_run.simps) simp
      moreover from rest(1) ei have "e \<le> e'" by simp
      ultimately show ?thesis using rest by blast
    qed
  qed
qed

lemma before_nat:
  "before y' a y x \<longleftrightarrow> unat y' < unat y \<or> (unat y' = unat y \<and> unat a < unat x)"
  by (simp add: before_def word_less_nat_alt word_unat_eq_iff)

lemma run_length_le_width: "is_run b y a c \<Longrightarrow> run_length a c \<le> unat (width b) - unat a"
  by (auto simp: is_run_def run_length_def word_less_nat_alt word_le_nat_alt)

lemma run_start_set: "is_run b y a c \<Longrightarrow> cell b y a"
  by (simp add: is_run_def)

lemma run_within:
  assumes "is_run b y a c" "a \<le> e" "e < width b" "e + 1 = width b \<or> \<not> cell b y (e + 1)"
  shows "c \<le> e"
proof (rule ccontr)
  assume "\<not> c \<le> e"
  then have "e < c" by simp
  then have le: "e + 1 \<le> c" by (rule word_succ_le)
  from assms(1) have c: "c < width b" and all: "\<forall>j. a \<le> j \<and> j \<le> c \<longrightarrow> cell b y j"
    by (simp_all add: is_run_def)
  from le c have "e + 1 \<noteq> width b" by auto
  moreover from assms(2,3) have "a \<le> e + 1" by (simp add: word_succ_le_iff)
  with le all have "cell b y (e + 1)" by blast
  ultimately show False using assms(4) by simp
qed

lemma best_before_length:
  assumes "best_before b s y x"
  shows "length_final s \<le> width b"
proof (cases "length_final s = 0")
  case True
  then show ?thesis by simp
next
  case False
  with assms obtain sx ex sy where "is_run b sy sx ex"
    and "unat (length_final s) = run_length sx ex"
    by (auto simp: best_before_def)
  with run_length_le_width [of b sy sx ex] show ?thesis
    by (simp add: word_le_nat_alt)
qed

lemma loop_bound:
  assumes "best_before b s y x"
  shows "unat (width b - length_final s) = unat (width b) - unat (length_final s)"
  using best_before_length [OF assms] by (rule unat_sub)

lemma before_irrefl: "\<not> before y x y x"
  by (simp add: before_def)

lemma before_trans_not:
  "before sy sx y x \<Longrightarrow> \<not> before y' a y x \<Longrightarrow> \<not> before y' a sy sx"
  by (auto simp: before_nat)

lemma best_before_advance:
  assumes inv: "best_before b s y x"
    and adv: "\<And>sy sx. before sy sx y x \<Longrightarrow> before sy sx y2 x2"
    and new: "\<And>y' a c. is_run b y' a c \<Longrightarrow> before y' a y2 x2 \<Longrightarrow> \<not> before y' a y x \<Longrightarrow>
                length_final s \<noteq> 0 \<and> run_length a c \<le> unat (length_final s)"
  shows "best_before b s y2 x2"
proof (cases "length_final s = 0")
  case True
  with inv have none: "\<And>y' a c. is_run b y' a c \<Longrightarrow> \<not> before y' a y x"
    by (auto simp: best_before_def)
  have "\<not> before y' a y2 x2" if r: "is_run b y' a c" for y' a c
    using new [OF r _ none [OF r]] True by blast
  with True show ?thesis by (simp add: best_before_def)
next
  case False
  with inv obtain sx ex sy where st: "start_final s = Some \<lparr>px = sx, py = sy\<rparr>"
    and en: "end_final s = Some \<lparr>px = ex, py = sy\<rparr>"
    and run: "is_run b sy sx ex" and bef: "before sy sx y x"
    and rmax: "ex + 1 = width b \<or> \<not> cell b sy (ex + 1)"
    and len: "unat (length_final s) = run_length sx ex"
    and old: "\<And>y' a c. is_run b y' a c \<Longrightarrow> before y' a y x \<Longrightarrow>
                 run_length a c \<le> run_length sx ex \<and>
                 (run_length a c = run_length sx ex \<longrightarrow> \<not> before y' a sy sx)"
    by (auto simp: best_before_def)
  have all: "run_length a c \<le> run_length sx ex \<and>
             (run_length a c = run_length sx ex \<longrightarrow> \<not> before y' a sy sx)"
    if r: "is_run b y' a c" and b2: "before y' a y2 x2" for y' a c
  proof (cases "before y' a y x")
    case True
    with r show ?thesis by (rule old)
  next
    case nb: False
    from new [OF r b2 nb] len have "run_length a c \<le> run_length sx ex" by simp
    moreover from bef nb have "\<not> before y' a sy sx" by (rule before_trans_not)
    ultimately show ?thesis by simp
  qed
  from False st en run adv [OF bef] rmax len all show ?thesis
    unfolding best_before_def by auto
qed

lemma best_before_replace:
  assumes inv: "best_before b s y x"
    and run: "is_run b y x e" and rmax: "e + 1 = width b \<or> \<not> cell b y (e + 1)"
    and bef: "before y x y2 x2"
    and better: "length_final s = 0 \<or> unat (length_final s) < run_length x e"
    and new: "\<And>y' a c. is_run b y' a c \<Longrightarrow> before y' a y2 x2 \<Longrightarrow> \<not> before y' a y x \<Longrightarrow>
                run_length a c \<le> run_length x e \<and> (run_length a c = run_length x e \<longrightarrow> y' = y \<and> a = x)"
    and len: "unat l = run_length x e"
  shows "best_before b \<lparr>start_final = Some \<lparr>px = x, py = y\<rparr>,
           end_final = Some \<lparr>px = e, py = y\<rparr>, length_final = l\<rparr> y2 x2"
proof -
  from len have nz: "l \<noteq> 0" by (auto simp: run_length_def)
  have all: "run_length a c \<le> run_length x e \<and>
             (run_length a c = run_length x e \<longrightarrow> \<not> before y' a y x)"
    if r: "is_run b y' a c" and b2: "before y' a y2 x2" for y' a c
  proof (cases "before y' a y x")
    case nb: False
    from new [OF r b2 nb] show ?thesis by (auto simp: before_irrefl)
  next
    case True
    show ?thesis
    proof (cases "length_final s = 0")
      case z: True
      with inv r True show ?thesis by (auto simp: best_before_def)
    next
      case False
      with inv r True have "run_length a c \<le> unat (length_final s)"
        by (auto simp: best_before_def)
      with better False show ?thesis by simp
    qed
  qed
  from nz run bef rmax len all show ?thesis
    unfolding best_before_def by auto
qed

lemma visit_unset:
  "valid_bitmap b \<Longrightarrow> y < height b \<Longrightarrow> x < width b \<Longrightarrow> \<not> cell b y x \<Longrightarrow>
     visit b y x s = Some (x, s)"
  by (simp add: visit_def pixel_at_cell)

lemma run_length_word:
  assumes "x \<le> e" "e < (w :: u32)"
  shows "unat (e - x + 1) = run_length x e"
proof -
  from assms(1) have sub: "unat (e - x) = unat e - unat x" by (rule unat_sub)
  with assms(2) have "e - x < w" by (simp add: word_less_nat_alt)
  then have "unat (e - x + 1) = Suc (unat (e - x))" by (rule unat_succ_less)
  with sub show ?thesis by (simp add: run_length_def)
qed

lemma visit_set:
  assumes valid: "valid_bitmap b" and y: "y < height b" and x: "x < width b"
    and c: "cell b y x"
  shows "\<exists>x' e. visit b y x s =
            Some (x', if length_final s = 0 \<or> length_final s < e - x + 1
                      then \<lparr>start_final = Some \<lparr>px = x, py = y\<rparr>,
                            end_final = Some \<lparr>px = e, py = y\<rparr>,
                            length_final = e - x + 1\<rparr>
                      else s) \<and>
          is_run b y x e \<and>
          (e + 1 = width b \<and> x' = x \<or> e + 1 < width b \<and> \<not> cell b y (e + 1) \<and> x' = e + 1)"
proof -
  from c have "\<forall>j. x \<le> j \<and> j \<le> x \<longrightarrow> cell b y j" by auto
  from extend_run_spec [OF valid y refl order_refl x this]
  obtain x' e where r: "extend_run b y (x + 1) (x, x) = Some (x', e)"
    and xe: "x \<le> e" and e: "e < width b" and run: "\<forall>j. x \<le> j \<and> j \<le> e \<longrightarrow> cell b y j"
    and rmax: "e + 1 = width b \<and> x' = x \<or> e + 1 < width b \<and> \<not> cell b y (e + 1) \<and> x' = e + 1"
    by blast
  from valid y x c r have "visit b y x s =
            Some (x', if length_final s = 0 \<or> length_final s < e - x + 1
                      then \<lparr>start_final = Some \<lparr>px = x, py = y\<rparr>,
                            end_final = Some \<lparr>px = e, py = y\<rparr>,
                            length_final = e - x + 1\<rparr>
                      else s)"
    by (simp add: visit_def pixel_at_cell hline_length_def)
  moreover from y xe e run have "is_run b y x e" by (simp add: is_run_def)
  ultimately show ?thesis using rmax by blast
qed

lemma best_before_row_end:
  assumes inv: "best_before b s y x" and y: "y < height b" and x: "x \<le> width b"
    and ex: "\<not> x < width b - length_final s"
  shows "best_before b s (y + 1) 0"
proof (rule best_before_advance [OF inv])
  from y have y1: "unat (y + 1) = Suc (unat y)" by (rule unat_succ_less)
  show "before sy sx (y + 1) 0" if "before sy sx y x" for sy sx
    using that y1 by (auto simp: before_nat)
  from ex have bound: "unat (width b) - unat (length_final s) \<le> unat x"
    by (simp add: word_less_nat_alt loop_bound [OF inv])
  show "length_final s \<noteq> 0 \<and> run_length a c \<le> unat (length_final s)"
    if r: "is_run b y' a c" and b2: "before y' a (y + 1) 0" and nb: "\<not> before y' a y x"
    for y' a c
  proof -
    from b2 nb y1 have xa: "unat x \<le> unat a" by (auto simp: before_nat)
    from r have "unat a < unat (width b)"
      by (auto simp: is_run_def word_less_nat_alt word_le_nat_alt)
    with xa bound have "length_final s \<noteq> 0" by (auto simp: word_unat_eq_iff)
    moreover from run_length_le_width [OF r] xa bound
    have "run_length a c \<le> unat (length_final s)" by simp
    ultimately show ?thesis by simp
  qed
qed

lemma best_before_unset:
  assumes inv: "best_before b s y x" and x: "x < width b" and c: "\<not> cell b y x"
  shows "best_before b s y (x + 1)"
proof (rule best_before_advance [OF inv])
  from x have x1: "unat (x + 1) = Suc (unat x)" by (rule unat_succ_less)
  show "before sy sx y (x + 1)" if "before sy sx y x" for sy sx
    using that x1 by (auto simp: before_nat)
  show "length_final s \<noteq> 0 \<and> run_length a c \<le> unat (length_final s)"
    if r: "is_run b y' a c" and b2: "before y' a y (x + 1)" and nb: "\<not> before y' a y x"
    for y' a c
  proof -
    from b2 nb x1 have "y' = y \<and> a = x" by (auto simp: before_nat word_unat_eq_iff)
    with run_start_set [OF r] c show ?thesis by simp
  qed
qed

lemma best_before_set:
  assumes inv: "best_before b s y x" and x: "x < width b" and run: "is_run b y x e"
    and rmax: "e + 1 = width b \<and> x' = x \<or> e + 1 < width b \<and> \<not> cell b y (e + 1) \<and> x' = e + 1"
  shows "best_before b
           (if length_final s = 0 \<or> length_final s < e - x + 1
            then \<lparr>start_final = Some \<lparr>px = x, py = y\<rparr>,
                  end_final = Some \<lparr>px = e, py = y\<rparr>,
                  length_final = e - x + 1\<rparr>
            else s) y (x' + 1) \<and> x' + 1 \<le> width b"
proof -
  from run have xe: "x \<le> e" and e: "e < width b" by (simp_all add: is_run_def)
  from rmax x have x'w: "x' < width b" by auto
  then have x'1: "unat (x' + 1) = Suc (unat x')" by (rule unat_succ_less)
  from e have e1: "unat (e + 1) = Suc (unat e)" by (rule unat_succ_less)
  from rmax xe e1 have xx': "unat x \<le> unat x'" by (auto simp: word_le_nat_alt)
  from rmax have rmax': "e + 1 = width b \<or> \<not> cell b y (e + 1)" by auto
  have len: "unat (e - x + 1) = run_length x e" using xe e by (rule run_length_word)
  have adv: "before sy sx y (x' + 1)" if "before sy sx y x" for sy sx
    using that x'1 xx' by (auto simp: before_nat)
  have new: "run_length a c \<le> run_length x e \<and> (run_length a c = run_length x e \<longrightarrow> y' = y \<and> a = x)"
    if r: "is_run b y' a c" and b2: "before y' a y (x' + 1)" and nb: "\<not> before y' a y x"
    for y' a c
  proof -
    from b2 nb x'1 have y': "y' = y" and xa: "unat x \<le> unat a" and ax': "unat a \<le> unat x'"
      by (auto simp: before_nat word_unat_eq_iff)
    from r y' have ry: "is_run b y a c" by simp
    have ae: "a \<le> e"
    proof (cases "x' = x")
      case True
      with xa ax' have "a = x" by (simp add: word_unat_eq_iff)
      with xe show ?thesis by simp
    next
      case False
      with rmax have nc: "\<not> cell b y (e + 1)" and "x' = e + 1" by auto
      with ax' have "a \<le> e + 1" by (simp add: word_le_nat_alt)
      moreover from run_start_set [OF ry] nc have "a \<noteq> e + 1" by auto
      ultimately show ?thesis using e by (simp add: word_succ_le_iff)
    qed
    from run_within [OF ry ae e rmax'] have ce: "unat c \<le> unat e"
      by (simp add: word_le_nat_alt)
    from ry have "unat a \<le> unat c" by (simp add: is_run_def word_le_nat_alt)
    with ce xa y' show ?thesis
      by (auto simp: run_length_def word_unat_eq_iff)
  qed
  show ?thesis
  proof (cases "length_final s = 0 \<or> length_final s < e - x + 1")
    case True
    then have better: "length_final s = 0 \<or> unat (length_final s) < run_length x e"
      using len by (auto simp: word_less_nat_alt)
    have bef: "before y x y (x' + 1)"
      using x'1 xx' by (simp add: before_nat)
    from best_before_replace [OF inv run rmax' bef better new len] True x'w
    show ?thesis by (simp add: word_succ_le)
  next
    case False
    then have nz: "length_final s \<noteq> 0" and ge: "run_length x e \<le> unat (length_final s)"
      using len by (auto simp: word_less_nat_alt)
    have "best_before b s y (x' + 1)"
    proof (rule best_before_advance [OF inv adv])
      show "length_final s \<noteq> 0 \<and> run_length a c \<le> unat (length_final s)"
        if r: "is_run b y' a c" and b2: "before y' a y (x' + 1)" and nb: "\<not> before y' a y x"
        for y' a c
        using new [OF r b2 nb] nz ge by simp
    qed
    with False x'w show ?thesis by (simp add: word_succ_le)
  qed
qed

lemma row_loop_inv:
  "valid_bitmap b \<Longrightarrow> y < height b \<Longrightarrow> x \<le> width b \<Longrightarrow> best_before b s y x \<Longrightarrow>
     \<exists>s'. row_loop b y x s = Some s' \<and> best_before b s' (y + 1) 0"
proof (induction b y x s rule: row_loop.induct)
  case (1 b y x s)
  note valid = \<open>valid_bitmap b\<close> and y = \<open>y < height b\<close> and inv = \<open>best_before b s y x\<close>
  show ?case
  proof (cases "x < width b - length_final s")
    case False
    with best_before_row_end [OF inv y \<open>x \<le> width b\<close> False] show ?thesis
      by (subst row_loop.simps) simp
  next
    case True
    then have x: "x < width b"
      by (simp add: word_less_nat_alt loop_bound [OF inv])
    show ?thesis
    proof (cases "cell b y x")
      case False
      with valid y x have v: "visit b y x s = Some (x, s)" by (simp add: visit_unset)
      from "1.IH" [OF True v refl valid y word_succ_le [OF x] best_before_unset [OF inv x False]]
      obtain s' where "row_loop b y (x + 1) s = Some s'" "best_before b s' (y + 1) 0"
        by blast
      with True v show ?thesis by (subst row_loop.simps) simp
    next
      case c: True
      from visit_set [OF valid y x c, of s] obtain x' e s1
        where v: "visit b y x s = Some (x', s1)"
          and s1: "s1 = (if length_final s = 0 \<or> length_final s < e - x + 1
                      then \<lparr>start_final = Some \<lparr>px = x, py = y\<rparr>,
                            end_final = Some \<lparr>px = e, py = y\<rparr>,
                            length_final = e - x + 1\<rparr>
                      else s)"
          and run: "is_run b y x e"
          and rmax: "e + 1 = width b \<and> x' = x \<or> e + 1 < width b \<and> \<not> cell b y (e + 1) \<and> x' = e + 1"
        by blast
      from best_before_set [OF inv x run rmax] s1
      have inv1: "best_before b s1 y (x' + 1)" and le: "x' + 1 \<le> width b" by simp_all
      from "1.IH" [OF True v refl valid y le inv1]
      obtain s' where "row_loop b y (x' + 1) s1 = Some s'" "best_before b s' (y + 1) 0"
        by blast
      with True v show ?thesis by (subst row_loop.simps) simp
    qed
  qed
qed

lemma col_loop_inv:
  "valid_bitmap b \<Longrightarrow> y \<le> height b \<Longrightarrow> best_before b s y 0 \<Longrightarrow>
     \<exists>s'. col_loop b y s = Some s' \<and> best_before b s' (height b) 0"
proof (induction b y s rule: col_loop.induct)
  case (1 b y s)
  show ?case
  proof (cases "y < height b")
    case False
    with \<open>y \<le> height b\<close> have "y = height b" by simp
    with False "1.prems" show ?thesis by (subst col_loop.simps) simp
  next
    case True
    from row_loop_inv [OF \<open>valid_bitmap b\<close> True _ \<open>best_before b s y 0\<close>]
    obtain s1 where r: "row_loop b y 0 s = Some s1" and inv1: "best_before b s1 (y + 1) 0"
      by auto
    from "1.IH" [OF True r \<open>valid_bitmap b\<close> word_succ_le [OF True] inv1]
    obtain s' where "col_loop b (y + 1) s1 = Some s'" "best_before b s' (height b) 0"
      by blast
    with True r show ?thesis by (subst col_loop.simps) simp
  qed
qed

lemma best_before_init: "best_before b search_init 0 0"
  by (simp add: best_before_def search_init_def before_def)

lemma before_end: "y < height b \<Longrightarrow> before y a (height b) 0"
  by (simp add: before_def)

lemma search_total:
  assumes "valid_bitmap b"
  shows "\<exists>s. col_loop b 0 search_init = Some s \<and> best_before b s (height b) 0"
  using col_loop_inv [OF assms _ best_before_init] by simp

lemma find_hline_none:
  assumes valid: "valid_bitmap b" and none: "\<And>y a c. \<not> is_run b y a c"
  shows "find_hline b = Some (1, None)"
proof -
  from search_total [OF valid] obtain s where s: "col_loop b 0 search_init = Some s"
    and inv: "best_before b s (height b) 0" by blast
  have "length_final s = 0"
  proof (rule ccontr)
    assume "length_final s \<noteq> 0"
    with inv obtain sx ex sy where "is_run b sy sx ex" by (auto simp: best_before_def)
    with none show False by simp
  qed
  with s show ?thesis by (simp add: find_hline_def)
qed

lemma find_hline_some:
  assumes valid: "valid_bitmap b" and some: "is_run b y0 a0 c0"
  shows "\<exists>sx ex sy. find_hline b =
            Some (0, Some \<lparr>start_pt = \<lparr>px = sx, py = sy\<rparr>, end_pt = \<lparr>px = ex, py = sy\<rparr>\<rparr>) \<and>
          is_run b sy sx ex \<and> (ex + 1 = width b \<or> \<not> cell b sy (ex + 1)) \<and>
          unat (ex - sx + 1) = run_length sx ex \<and>
          (\<forall>y a c. is_run b y a c \<longrightarrow>
             run_length a c \<le> run_length sx ex \<and>
             (run_length a c = run_length sx ex \<longrightarrow> \<not> before y a sy sx))"
proof -
  from search_total [OF valid] obtain s where s: "col_loop b 0 search_init = Some s"
    and inv: "best_before b s (height b) 0" by blast
  have all_before: "before y a (height b) 0" if "is_run b y a c" for y a c
    using that by (simp add: is_run_def before_end)
  have nz: "length_final s \<noteq> 0"
  proof
    assume "length_final s = 0"
    with inv some have "\<not> before y0 a0 (height b) 0" by (auto simp: best_before_def)
    with all_before [OF some] show False by simp
  qed
  with inv obtain sx ex sy where st: "start_final s = Some \<lparr>px = sx, py = sy\<rparr>"
    and en: "end_final s = Some \<lparr>px = ex, py = sy\<rparr>"
    and run: "is_run b sy sx ex"
    and rmax: "ex + 1 = width b \<or> \<not> cell b sy (ex + 1)"
    and len: "unat (length_final s) = run_length sx ex"
    and old: "\<And>y' a c. is_run b y' a c \<Longrightarrow> before y' a (height b) 0 \<Longrightarrow>
                 run_length a c \<le> run_length sx ex \<and>
                 (run_length a c = run_length sx ex \<longrightarrow> \<not> before y' a sy sx)"
    by (auto simp: best_before_def)
  from s nz st en have "find_hline b =
      Some (0, Some \<lparr>start_pt = \<lparr>px = sx, py = sy\<rparr>, end_pt = \<lparr>px = ex, py = sy\<rparr>\<rparr>)"
    by (simp add: find_hline_def)
  moreover from run have "unat (ex - sx + 1) = run_length sx ex"
    by (auto simp: is_run_def intro: run_length_word)
  moreover have "\<forall>y a c. is_run b y a c \<longrightarrow>
             run_length a c \<le> run_length sx ex \<and>
             (run_length a c = run_length sx ex \<longrightarrow> \<not> before y a sy sx)"
    using old all_before by blast
  ultimately show ?thesis using run rmax by blast
qed

lemma left_maximal:
  assumes run: "is_run b sy sx ex"
    and best: "\<And>y a c. is_run b y a c \<Longrightarrow> run_length a c \<le> run_length sx ex"
  shows "sx = 0 \<or> \<not> cell b sy (sx - 1)"
proof (rule ccontr)
  assume "\<not> (sx = 0 \<or> \<not> cell b sy (sx - 1))"
  then have nz: "sx \<noteq> 0" and c: "cell b sy (sx - 1)" by simp_all
  from nz have "unat sx \<noteq> 0" by (simp add: unat_eq_0)
  then have "1 \<le> sx" by (simp add: word_le_nat_alt)
  then have m: "unat (sx - 1) = unat sx - 1" using unat_sub [of 1 sx] by simp
  with \<open>unat sx \<noteq> 0\<close> have lt: "sx - 1 < sx" by (simp add: word_less_nat_alt)
  then have s1: "sx - 1 + 1 = sx" by simp
  have "is_run b sy (sx - 1) ex"
    unfolding is_run_def
  proof (intro conjI allI impI)
    from run show "sy < height b" "ex < width b" by (simp_all add: is_run_def)
    from run lt show "sx - 1 \<le> ex" by (auto simp: is_run_def)
    fix j assume j: "sx - 1 \<le> j \<and> j \<le> ex"
    show "cell b sy j"
    proof (cases "j = sx - 1")
      case True
      with c show ?thesis by simp
    next
      case False
      with j have "sx - 1 < j" by auto
      then have "sx - 1 + 1 \<le> j" by (rule word_succ_le)
      with s1 j run show ?thesis by (simp add: is_run_def)
    qed
  qed
  from best [OF this] have "run_length (sx - 1) ex \<le> run_length sx ex" .
  moreover from run have "unat sx \<le> unat ex" by (simp add: is_run_def word_le_nat_alt)
  ultimately show False using m \<open>unat sx \<noteq> 0\<close>
    unfolding run_length_def by arith
qed

lemma has_set_cell_run: "has_set_cell b \<longleftrightarrow> (\<exists>y a c. is_run b y a c)"
proof
  assume "has_set_cell b"
  then obtain y x where "y < height b" "x < width b" "cell b y x"
    by (auto simp: has_set_cell_def)
  then have "is_run b y x x" by (auto simp: is_run_def)
  then show "\<exists>y a c. is_run b y a c" by blast
next
  assume "\<exists>y a c. is_run b y a c"
  then obtain y a c where r: "is_run b y a c" by blast
  then have "y < height b" "a < width b" "cell b y a"
    by (auto simp: is_run_def)
  then show "has_set_cell b" by (auto simp: has_set_cell_def)
qed

lemma example_grid_valid: "valid_bitmap example_grid"
  by (simp add: valid_bitmap_def example_grid_def)

lemma example_grid_set: "has_set_cell example_grid"
  unfolding has_set_cell_def
  by (rule exI [of _ 0], rule exI [of _ 1]) (simp add: example_grid_def cell_def)

lemmas scan_defs = scan_u_u_def scan_u_def scan_d_def scan_integer_def isspace_def isdigit_def
  decimal_def digit_value_def newline_def

lemma scan_scenario:
  "scan_u_u (''2 3'' @ newline @ ''0 1 1'' @ newline @ ''1 1 1'') =
     Scanned (2, 3) (newline @ ''0 1 1'' @ newline @ ''1 1 1'')"
  by (simp add: scan_defs)

lemma find_hline_example:
  "find_hline example_grid =
     Some (0, Some \<lparr>start_pt = \<lparr>px = 0, py = 1\<rparr>, end_pt = \<lparr>px = 2, py = 1\<rparr>\<rparr>)"
  by (simp add: find_hline_def example_grid_def col_loop.simps row_loop.simps visit_def
      extend_run.simps pixel_at_def search_init_def hline_length_def Let_def)

lemma load_pixels_read:
  "length (data bitmap) = unat bitmap_area \<Longrightarrow> index \<le> bitmap_area \<Longrightarrow>
   load_pixels bitmap_area index src bitmap =
     (case read_pixels (unat bitmap_area - unat index) src of
        Inl err \<Rightarrow> Inl err
      | Inr ps \<Rightarrow> Inr (bitmap\<lparr>data := take (unat index) (data bitmap) @ ps\<rparr>))"
proof (induction bitmap_area index src bitmap rule: load_pixels.induct)
  case (1 bitmap_area index src bitmap)
  show ?case
  proof (cases "index < bitmap_area")
    case False
    with "1.prems" have "index = bitmap_area" by simp
    with "1.prems" show ?thesis by (subst load_pixels.simps) simp
  next
    case True
    then have i1: "unat (index + 1) = Suc (unat index)" by (rule unat_succ_less)
    from True have lt: "unat index < unat bitmap_area" by (simp add: word_less_nat_alt)
    then have k: "unat bitmap_area - unat index = Suc (unat bitmap_area - unat (index + 1))"
      using i1 by simp
    from True have le: "index + 1 \<le> bitmap_area" by (rule word_succ_le)
    show ?thesis
    proof (cases "scan_d src")
      case Mismatch
      with True k show ?thesis by (subst load_pixels.simps) simp
    next
      case Unrepresentable
      with True k show ?thesis by (subst load_pixels.simps) simp
    next
      case (Scanned pixel rest)
      show ?thesis
      proof (cases "pixel \<noteq> 0 \<and> pixel \<noteq> 1")
        case bad: True
        with True k Scanned show ?thesis by (subst load_pixels.simps) simp
      next
        case ok: False
        let ?bm = "bitmap\<lparr>data := (data bitmap)[unat index := (pixel \<noteq> 0)]\<rparr>"
        from "1.prems" have len: "length (data ?bm) = unat bitmap_area" by simp
        have tk: "take (unat (index + 1)) (data ?bm) =
                    take (unat index) (data bitmap) @ [pixel \<noteq> 0]"
          using lt "1.prems"(1) by (simp add: i1 take_Suc_conv_app_nth)
        from "1.IH" [OF True Scanned ok len le]
        have "load_pixels bitmap_area (index + 1) rest ?bm =
               (case read_pixels (unat bitmap_area - unat (index + 1)) rest of
                  Inl err \<Rightarrow> Inl err
                | Inr ps \<Rightarrow> Inr (?bm\<lparr>data := take (unat (index + 1)) (data ?bm) @ ps\<rparr>))" .
        with True k Scanned ok tk show ?thesis
          by (subst load_pixels.simps) (auto split: sum.splits)
      qed
    qed
  qed
qed

lemma create_bitmap_eq:
  "create_bitmap e w h =
     (if malloc_ok e (8 + unat (w * h))
      then Some \<lparr>width = w, height = h, data = map (uninit e) [0..<unat (w * h)]\<rparr>
      else None)"
  by (simp add: create_bitmap_def)

lemma load_bitmap_read:
  "load_bitmap e f =
     (case files e f of
        None \<Rightarrow> Inl File_not_found
      | Some src \<Rightarrow>
          (case scan_u_u src of
             Mismatch \<Rightarrow> Inl Invalid_file_format
           | Unrepresentable \<Rightarrow> Inl Undefined_conversion
           | Scanned (h, w) rest \<Rightarrow>
               if w = 0 \<or> h = 0 then Inl Invalid_bitmap_size
               else if \<not> malloc_ok e (8 + unat (w * h)) then Inl Memory_allocation_failed
               else (case read_pixels (unat (w * h)) rest of
                       Inl err \<Rightarrow> Inl err
                     | Inr ps \<Rightarrow> Inr \<lparr>width = w, height = h, data = ps\<rparr>)))"
proof (cases "files e f")
  case None
  then show ?thesis by (simp add: load_bitmap_def)
next
  case (Some src)
  show ?thesis
  proof (cases "scan_u_u src")
    case Mismatch
    with Some show ?thesis by (simp add: load_bitmap_def)
  next
    case Unrepresentable
    with Some show ?thesis by (simp add: load_bitmap_def)
  next
    case (Scanned hw rest)
    obtain h w where hw: "hw = (h, w)" by (cases hw)
    show ?thesis
    proof (cases "w = 0 \<or> h = 0")
      case True
      with Some Scanned hw show ?thesis by (auto simp: load_bitmap_def)
    next
      case nz: False
      show ?thesis
      proof (cases "malloc_ok e (8 + unat (w * h))")
        case False
        with Some Scanned hw nz show ?thesis
          by (simp add: load_bitmap_def create_bitmap_eq)
      next
        case True
        let ?bm = "\<lparr>width = w, height = h, data = map (uninit e) [0..<unat (w * h)]\<rparr>"
        have "load_pixels (w * h) 0 rest ?bm =
               (case read_pixels (unat (w * h)) rest of
                  Inl err \<Rightarrow> Inl err
                | Inr ps \<Rightarrow> Inr \<lparr>width = w, height = h, data = ps\<rparr>)"
          using load_pixels_read [of ?bm "w * h" 0 rest] by (simp split: sum.splits)
        with Some Scanned hw nz True show ?thesis
          by (simp add: load_bitmap_def create_bitmap_eq)
      qed
    qed
  qed
qed

lemma print_line_example:
  "print_line \<lparr>start_pt = \<lparr>px = 0, py = 1\<rparr>, end_pt = \<lparr>px = 2, py = 1\<rparr>\<rparr> = ''1 0 1 2'' @ newline"
  by (simp add: print_line_def show_u_def show_nat.simps digit_char_def)

lemma read_pixels_numeral:
  "read_pixels (numeral k) src =
     (case scan_d src of
        Scanned pixel rest \<Rightarrow>
          if pixel \<noteq> 0 \<and> pixel \<noteq> 1 then Inl Invalid_pixel_value
          else (case read_pixels (pred_numeral k) rest of
                  Inl err \<Rightarrow> Inl err
                | Inr ps \<Rightarrow> Inr ((pixel \<noteq> 0) # ps))
      | Mismatch \<Rightarrow> Inl Invalid_pixel_value
      | Unrepresentable \<Rightarrow> Inl Undefined_conversion)"
  by (simp only: numeral_eq_Suc read_pixels.simps)

lemma load_scenario:
  assumes "files e f = Some (''2 3'' @ newline @ ''0 1 1'' @ newline @ ''1 1 1'')"
    and "malloc_ok e 14"
  shows "load_bitmap e f = Inr example_grid"
  using assms
  by (simp add: load_bitmap_read scan_defs read_pixels_numeral example_grid_def)

lemma main_hline:
  "main e [prog, ''hline'', f] =
     (case load_bitmap e f of
        Inl err \<Rightarrow> load_failure err
      | Inr bitmap \<Rightarrow>
          (case find_hline bitmap of
             None \<Rightarrow> Undefined
           | Some (result, line) \<Rightarrow>
               if result = 0 then
                 (case line of None \<Rightarrow> Undefined | Some l \<Rightarrow> Exit 0 (print_line l) [])
               else Exit 1 [] (''No line found'' @ newline)))"
  by (simp add: main_def get_filename_def)

lemma find_hline_iff:
  assumes "valid_bitmap b"
  shows "find_hline b = Some (1, None) \<longleftrightarrow> \<not> has_set_cell b"
proof (cases "has_set_cell b")
  case False
  then have "\<And>y a c. \<not> is_run b y a c" by (simp add: has_set_cell_run)
  from find_hline_none [OF assms this] False show ?thesis by simp
next
  case True
  then obtain y a c where "is_run b y a c" by (auto simp: has_set_cell_run)
  from find_hline_some [OF assms this] True show ?thesis by auto
qed

lemma load_blank: "load_bitmap scenario_env ''blank.txt'' = Inr blank_grid"
  by (simp add: load_bitmap_read scan_defs read_pixels_numeral blank_grid_def scenario_env_def)

lemma blank_grid_valid: "valid_bitmap blank_grid"
  by (simp add: valid_bitmap_def blank_grid_def)

lemma blank_grid_unset: "\<not> has_set_cell blank_grid"
  by (simp add: has_set_cell_def blank_grid_def cell_def)

lemma visit_strict:
  assumes valid: "valid_bitmap b" and y: "y < height b" and x: "x < width b"
    and v: "visit b y x s = Some (x', s')"
  shows "s' = s \<or> length_final s < length_final s'"
proof (cases "cell b y x")
  case False
  with valid y x v show ?thesis by (simp add: visit_unset)
next
  case True
  from visit_set [OF valid y x True, of s] v obtain e
    where s': "s' = (if length_final s = 0 \<or> length_final s < e - x + 1
                      then \<lparr>start_final = Some \<lparr>px = x, py = y\<rparr>,
                            end_final = Some \<lparr>px = e, py = y\<rparr>,
                            length_final = e - x + 1\<rparr>
                      else s)"
      and run: "is_run b y x e"
    by auto
  from run have "unat (e - x + 1) = run_length x e"
    by (auto simp: is_run_def intro: run_length_word)
  then have "0 < e - x + 1" by (simp add: word_less_nat_alt run_length_def)
  with s' show ?thesis by auto
qed

lemma tie_grid_valid: "valid_bitmap tie_grid"
  by (simp add: valid_bitmap_def tie_grid_def)

lemma u32_less_3: "(x :: u32) < 3 \<longleftrightarrow> x = 0 \<or> x = 1 \<or> x = 2"
proof
  assume "x < 3"
  then have "unat x < 3" by (simp add: word_less_nat_alt)
  then have "unat x = 0 \<or> unat x = 1 \<or> unat x = 2" by arith
  then show "x = 0 \<or> x = 1 \<or> x = 2" by (auto simp: word_unat_eq_iff)
qed auto

lemma u32_less_2: "(x :: u32) < 2 \<longleftrightarrow> x = 0 \<or> x = 1"
proof
  assume "x < 2"
  then have "unat x < 2" by (simp add: word_less_nat_alt)
  then have "unat x = 0 \<or> unat x = 1" by arith
  then show "x = 0 \<or> x = 1" by (auto simp: word_unat_eq_iff)
qed auto

lemma tie_grid_cells:
  "cell tie_grid 0 0" "\<not> cell tie_grid 0 1" "cell tie_grid 0 2"
  "cell tie_grid 1 0" "\<not> cell tie_grid 1 1" "\<not> cell tie_grid 1 2"
  by (simp_all add: cell_def tie_grid_def)

lemma tie_grid_runs:
  assumes "is_run tie_grid y a c"
  shows "a = c"
proof -
  from assms have y: "y = 0 \<or> y = 1" and c: "c = 0 \<or> c = 1 \<or> c = 2" and ac: "a \<le> c"
    and all: "\<And>j. a \<le> j \<Longrightarrow> j \<le> c \<Longrightarrow> cell tie_grid y j"
    by (simp_all add: is_run_def tie_grid_def u32_less_3 u32_less_2)
  from ac c have a: "a = 0 \<or> a = 1 \<or> a = 2" 
    using u32_less_3 [of a] by (auto simp: word_le_nat_alt word_less_nat_alt)
  have n1: "\<not> (a \<le> 1 \<and> 1 \<le> c)" using all [of 1] y tie_grid_cells by auto
  from a c ac n1 show ?thesis by auto
qed

lemma pixel_tokens_length: "pixel_tokens n src = Scanned vs r \<Longrightarrow> length vs = n"
  by (induction n arbitrary: src vs) (auto split: scanned.splits)

lemma read_pixels_tokens:
  "read_pixels n src =
     (case pixel_tokens n src of
        Scanned vs r \<Rightarrow>
          if \<forall>v\<in>set vs. v = 0 \<or> v = 1 then Inr (map (\<lambda>v. v \<noteq> 0) vs)
          else Inl Invalid_pixel_value
      | Mismatch \<Rightarrow> Inl Invalid_pixel_value
      | Unrepresentable \<Rightarrow> read_pixels n src)"
proof (induction n arbitrary: src)
  case 0
  show ?case by simp
next
  case (Suc n)
  show ?case
  proof (cases "scan_d src")
    case (Scanned v rest)
    show ?thesis
    proof (cases "v \<noteq> 0 \<and> v \<noteq> 1")
      case True
      with Scanned show ?thesis by (auto split: scanned.splits)
    next
      case False
      with Scanned Suc [of rest] show ?thesis
        by (auto split: scanned.splits)
    qed
  qed simp_all
qed

lemma read_pixels_error:
  "read_pixels n src = Inl err \<Longrightarrow> err = Invalid_pixel_value \<or> err = Undefined_conversion"
  by (induction n arbitrary: src) (auto split: scanned.splits if_splits sum.splits)

lemma read_pixels_Inr:
  "read_pixels n src = Inr ps \<Longrightarrow>
     \<exists>vs r. pixel_tokens n src = Scanned vs r \<and> (\<forall>v\<in>set vs. v = 0 \<or> v = 1) \<and>
       ps = map (\<lambda>v. v \<noteq> 0) vs"
proof (induction n arbitrary: src ps)
  case 0
  then show ?case by simp
next
  case (Suc n)
  from Suc.prems obtain v rest ps' where sc: "scan_d src = Scanned v rest"
    and v: "v = 0 \<or> v = 1" and r: "read_pixels n rest = Inr ps'" and ps: "ps = (v \<noteq> 0) # ps'"
    by (auto split: scanned.splits if_splits sum.splits)
  from Suc.IH [OF r] obtain vs r' where "pixel_tokens n rest = Scanned vs r'"
    "\<forall>v\<in>set vs. v = 0 \<or> v = 1" "ps' = map (\<lambda>v. v \<noteq> 0) vs"
    by blast
  with sc v ps show ?case by auto
qed

lemma scan_u_u_Scanned:
  "scan_u_u src = Scanned (h, w) rest \<longleftrightarrow>
     (\<exists>r1. scan_u src = Scanned h r1 \<and> scan_u r1 = Scanned w rest)"
  by (auto simp: scan_u_u_def split: scanned.splits)

lemma load_bitmap_Inr:
  assumes "load_bitmap e f = Inr b"
  shows "\<exists>src rest vs r.
           files e f = Some src \<and> scan_u_u src = Scanned (height b, width b) rest \<and>
           height b \<noteq> 0 \<and> width b \<noteq> 0 \<and> malloc_ok e (8 + unat (width b * height b)) \<and>
           pixel_tokens (unat (width b * height b)) rest = Scanned vs r \<and>
           (\<forall>v\<in>set vs. v = 0 \<or> v = 1) \<and> data b = map (\<lambda>v. v \<noteq> 0) vs"
proof -
  from assms obtain src where src: "files e f = Some src"
    by (auto simp: load_bitmap_read split: option.splits)
  with assms obtain h w rest where sc: "scan_u_u src = Scanned (h, w) rest"
    by (auto simp: load_bitmap_read split: scanned.splits)
  with assms src have nz: "h \<noteq> 0" "w \<noteq> 0" and m: "malloc_ok e (8 + unat (w * h))"
    by (auto simp: load_bitmap_read split: if_splits)
  with assms src sc obtain ps where ps: "read_pixels (unat (w * h)) rest = Inr ps"
    and b: "b = \<lparr>width = w, height = h, data = ps\<rparr>"
    by (auto simp: load_bitmap_read split: sum.splits)
  from ps obtain vs r where "pixel_tokens (unat (w * h)) rest = Scanned vs r"
    and "\<forall>v\<in>set vs. v = 0 \<or> v = 1" and "ps = map (\<lambda>v. v \<noteq> 0) vs"
    using read_pixels_Inr by blast
  with src sc nz m b show ?thesis by auto
qed

lemma loaded_grid_small:
  assumes "load_bitmap e f = Inr b" and "valid_bitmap b"
  shows "unat (width b) * unat (height b) < 2 ^ 32"
proof -
  from load_bitmap_Inr [OF assms(1)] obtain rest vs r
    where tk: "pixel_tokens (unat (width b * height b)) rest = Scanned vs r"
      and d: "data b = map (\<lambda>v. v \<noteq> 0) vs"
    by blast
  from tk have "length vs = unat (width b * height b)" by (rule pixel_tokens_length)
  with d assms(2) have "unat (width b) * unat (height b) = unat (width b * height b)"
    by (simp add: valid_bitmap_def)
  with unat_lt_2p32 [of "width b * height b"] show ?thesis by simp
qed







lemma load_bitmap_pixels:
  assumes src: "files e f = Some src" and sc: "scan_u_u src = Scanned (h, w) rest"
    and nz: "h \<noteq> 0 \<and> w \<noteq> 0 \<and> malloc_ok e (8 + unat (w * h))"
  shows "case pixel_tokens (unat (w * h)) rest of
           Scanned vs r \<Rightarrow>
             load_bitmap e f =
               (if \<forall>v\<in>set vs. v = 0 \<or> v = 1
                then Inr \<lparr>width = w, height = h, data = map (\<lambda>v. v \<noteq> 0) vs\<rparr>
                else Inl Invalid_pixel_value)
         | Mismatch \<Rightarrow> load_bitmap e f = Inl Invalid_pixel_value
         | Unrepresentable \<Rightarrow>
             load_bitmap e f = Inl Invalid_pixel_value \<or>
             load_bitmap e f = Inl Undefined_conversion"
proof -
  from src sc nz have l: "load_bitmap e f =
      (case read_pixels (unat (w * h)) rest of
         Inl err \<Rightarrow> Inl err
       | Inr ps \<Rightarrow> Inr \<lparr>width = w, height = h, data = ps\<rparr>)"
    by (simp add: load_bitmap_read)
  show ?thesis
  proof (cases "pixel_tokens (unat (w * h)) rest")
    case (Scanned vs r)
    then have "read_pixels (unat (w * h)) rest =
        (if \<forall>v\<in>set vs. v = 0 \<or> v = 1 then Inr (map (\<lambda>v. v \<noteq> 0) vs)
         else Inl Invalid_pixel_value)"
      by (subst read_pixels_tokens) simp
    with l Scanned show ?thesis by simp
  next
    case Mismatch
    then have "read_pixels (unat (w * h)) rest = Inl Invalid_pixel_value"
      by (subst read_pixels_tokens) simp
    with l Mismatch show ?thesis by simp
  next
    case Unrepresentable
    have "\<exists>err. read_pixels (unat (w * h)) rest = Inl err"
    proof (cases "read_pixels (unat (w * h)) rest")
      case (Inr ps)
      from read_pixels_Inr [OF this] Unrepresentable show ?thesis by auto
    qed simp
    then obtain err where r: "read_pixels (unat (w * h)) rest = Inl err" by blast
    from read_pixels_error [OF r] l r Unrepresentable show ?thesis by auto
  qed
qed


lemma extend_run_end:
  "extend_run b y i (x, e) = Some (x', e') \<Longrightarrow> e' = e \<or> (i \<le> e' \<and> e' < width b)"
proof (induction b y i "(x, e)" arbitrary: e rule: extend_run.induct)
  case (1 b y i e)
  show ?case
  proof (cases "i < width b")
    case False
    with "1.prems" show ?thesis by (subst (asm) extend_run.simps) simp
  next
    case True
    then have "unat (i + 1) = Suc (unat i)" by (rule unat_succ_less)
    then have le: "i \<le> i + 1" by (simp add: word_le_nat_alt)
    from "1.prems" True "1.hyps" le show ?thesis
      by (subst (asm) extend_run.simps) (force split: option.splits if_splits)
  qed
qed

lemma visit_length:
  assumes v: "visit b y x s = Some (x', s')" and x: "x < width b"
    and l: "length_final s \<le> width b"
  shows "length_final s' \<le> width b"
proof (cases "s' = s")
  case True
  with l show ?thesis by simp
next
  case False
  with v obtain e where r: "extend_run b y (x + 1) (x, x) = Some (x', e)"
    and s': "length_final s' = e - x + 1"
    by (auto simp: visit_def Let_def hline_length_def split: option.splits if_splits)
  from x have x1: "unat (x + 1) = Suc (unat x)" by (rule unat_succ_less)
  from extend_run_end [OF r] x1 x have xe: "x \<le> e" and e: "e < width b"
    by (auto simp: word_le_nat_alt)
  from run_length_word [OF xe e] e s' show ?thesis
    by (simp add: run_length_def word_le_nat_alt word_less_nat_alt)
qed

text \<open>
  Every such evaluation lies on the run of \<open>find_hline\<close>: the result of the two loops from
  the start is their result from there.
\<close>

lemma cond_evaluated_on_path:
  "cond_evaluated b y x s \<Longrightarrow>
     y < height b \<and>
     col_loop b 0 search_init =
       (case row_loop b y x s of None \<Rightarrow> None | Some s1 \<Rightarrow> col_loop b (y + 1) s1)"
proof (induction rule: cond_evaluated.induct)
  case enter
  then show ?case by (subst col_loop.simps) simp
next
  case (next_column y x s x' s')
  from next_column.hyps(2,3)
  have "row_loop b y x s = row_loop b y (x' + 1) s'" by (subst row_loop.simps) simp
  with next_column.IH show ?case by simp
next
  case (next_row y x s)
  from next_row.hyps(2) have "row_loop b y x s = Some s" by (subst row_loop.simps) simp
  with next_row.IH have "col_loop b 0 search_init = col_loop b (y + 1) s" by simp
  also from next_row.hyps(3) have "\<dots> =
      (case row_loop b (y + 1) 0 s of None \<Rightarrow> None | Some s1 \<Rightarrow> col_loop b (y + 1 + 1) s1)"
    by (subst col_loop.simps) simp
  finally show ?case using next_row.hyps(3) by simp
qed

lemma naive_extend_eq:
  "naive_extend b y i e = map_option snd (extend_run b y i (x, e))"
proof (induction b y i "(x, e)" arbitrary: e rule: extend_run.induct)
  case (1 b y i e)
  show ?case
  proof (cases "i < width b")
    case False
    then show ?thesis
      by (subst naive_extend.simps, subst extend_run.simps) simp
  next
    case True
    show ?thesis
    proof (cases "pixel_at b (y * width b + i)")
      case None
      with True show ?thesis
        by (subst naive_extend.simps, subst extend_run.simps) simp
    next
      case (Some p)
      with True "1.hyps" [OF True Some] show ?thesis
        by (subst naive_extend.simps, subst extend_run.simps) simp
    qed
  qed
qed

lemma naive_visit_eq: "naive_visit b y x s = map_option snd (visit b y x s)"
  by (simp add: naive_visit_def visit_def naive_extend_eq [of b y "x + 1" x x] Let_def
      split: option.splits)

lemma naive_visit_unset:
  "valid_bitmap b \<Longrightarrow> y < height b \<Longrightarrow> x < width b \<Longrightarrow> \<not> cell b y x \<Longrightarrow>
     naive_visit b y x s = Some s"
  by (simp add: naive_visit_eq visit_unset)

lemma naive_visit_small:
  assumes valid: "valid_bitmap b" and y: "y < height b" and x: "x < width b"
    and nz: "length_final s \<noteq> 0"
    and small: "\<And>c. is_run b y x c \<Longrightarrow> run_length x c \<le> unat (length_final s)"
  shows "naive_visit b y x s = Some s"
proof (cases "cell b y x")
  case False
  with valid y x show ?thesis by (rule naive_visit_unset)
next
  case True
  from visit_set [OF valid y x True, of s] obtain x' e
    where v: "visit b y x s =
            Some (x', if length_final s = 0 \<or> length_final s < e - x + 1
                      then \<lparr>start_final = Some \<lparr>px = x, py = y\<rparr>,
                            end_final = Some \<lparr>px = e, py = y\<rparr>,
                            length_final = e - x + 1\<rparr>
                      else s)"
      and run: "is_run b y x e"
    by blast
  from run have "unat (e - x + 1) = run_length x e"
    by (auto simp: is_run_def intro: run_length_word)
  with small [OF run] have "\<not> length_final s < e - x + 1" by (simp add: word_less_nat_alt)
  with v nz show ?thesis by (simp add: naive_visit_eq)
qed

lemma naive_row_skip:
  "valid_bitmap b \<Longrightarrow> y < height b \<Longrightarrow> x \<le> x2 \<Longrightarrow> x2 \<le> width b \<Longrightarrow>
   length_final s \<noteq> 0 \<Longrightarrow>
   (\<And>a c. is_run b y a c \<Longrightarrow> x \<le> a \<Longrightarrow> a < x2 \<Longrightarrow> run_length a c \<le> unat (length_final s)) \<Longrightarrow>
   naive_row b y x s = naive_row b y x2 s"
proof (induction b y x s rule: naive_row.induct)
  case (1 b y x s)
  show ?case
  proof (cases "x = x2")
    case True
    then show ?thesis by simp
  next
    case False
    with \<open>x \<le> x2\<close> have lt: "x < x2" by simp
    with \<open>x2 \<le> width b\<close> have xw: "x < width b" by simp
    have v: "naive_visit b y x s = Some s"
      using \<open>valid_bitmap b\<close> \<open>y < height b\<close> xw \<open>length_final s \<noteq> 0\<close>
    proof (rule naive_visit_small)
      fix c assume "is_run b y x c"
      from "1.prems"(6) [OF this order_refl lt]
      show "run_length x c \<le> unat (length_final s)" .
    qed
    from lt have x1: "x + 1 \<le> x2" by (rule word_succ_le)
    from lt have le1: "x \<le> x + 1" by (simp add: word_succ_le_iff)
    have "naive_row b y (x + 1) s = naive_row b y x2 s"
    proof (rule "1.IH" [OF xw v \<open>valid_bitmap b\<close> \<open>y < height b\<close> x1 \<open>x2 \<le> width b\<close>
          \<open>length_final s \<noteq> 0\<close>])
      fix a c assume "is_run b y a c" "x + 1 \<le> a" "a < x2"
      with le1 "1.prems"(6) [of a c] show "run_length a c \<le> unat (length_final s)" by simp
    qed
    with xw v show ?thesis by (subst naive_row.simps) simp
  qed
qed

lemma naive_row_end: "naive_row b y (width b) s = Some s"
  by (subst naive_row.simps) simp

lemma skipped_runs:
  assumes run: "is_run b y x e"
    and rmax: "e + 1 = width b \<and> x' = x \<or> e + 1 < width b \<and> \<not> cell b y (e + 1) \<and> x' = e + 1"
    and r: "is_run b y a c" and xa: "x \<le> a" and ax': "a \<le> x'"
  shows "run_length a c \<le> run_length x e"
proof -
  from run have xe: "x \<le> e" and e: "e < width b" by (simp_all add: is_run_def)
  from rmax have rmax': "e + 1 = width b \<or> \<not> cell b y (e + 1)" by auto
  have ae: "a \<le> e"
  proof (cases "x' = x")
    case True
    with xa ax' xe show ?thesis by simp
  next
    case False
    with rmax have nc: "\<not> cell b y (e + 1)" and "x' = e + 1" by auto
    with ax' have "a \<le> e + 1" by simp
    moreover from run_start_set [OF r] nc have "a \<noteq> e + 1" by auto
    ultimately show ?thesis using e by (simp add: word_succ_le_iff)
  qed
  from run_within [OF r ae e rmax'] have "unat c \<le> unat e" by (simp add: word_le_nat_alt)
  moreover from xa have "unat x \<le> unat a" by (simp add: word_le_nat_alt)
  ultimately show ?thesis by (simp add: run_length_def)
qed

lemma row_loop_naive:
  "valid_bitmap b \<Longrightarrow> y < height b \<Longrightarrow> x \<le> width b \<Longrightarrow> best_before b s y x \<Longrightarrow>
     row_loop b y x s = naive_row b y x s"
proof (induction b y x s rule: row_loop.induct)
  case (1 b y x s)
  note valid = \<open>valid_bitmap b\<close> and y = \<open>y < height b\<close> and inv = \<open>best_before b s y x\<close>
  show ?case
  proof (cases "x < width b - length_final s")
    case False
    then have bound: "unat (width b) - unat (length_final s) \<le> unat x"
      by (simp add: word_less_nat_alt loop_bound [OF inv])
    have "naive_row b y x s = Some s"
    proof (cases "length_final s = 0")
      case True
      with bound \<open>x \<le> width b\<close> have "x = width b"
        by (simp add: word_le_nat_alt word_unat_eq_iff)
      then show ?thesis by (simp add: naive_row_end)
    next
      case nz: False
      have "naive_row b y x s = naive_row b y (width b) s"
        using valid y \<open>x \<le> width b\<close> order_refl nz
      proof (rule naive_row_skip)
        fix a c assume r: "is_run b y a c" and "x \<le> a"
        then have "unat x \<le> unat a" by (simp add: word_le_nat_alt)
        with run_length_le_width [OF r] bound
        show "run_length a c \<le> unat (length_final s)" by simp
      qed
      then show ?thesis by (simp add: naive_row_end)
    qed
    with False show ?thesis by (subst row_loop.simps) simp
  next
    case True
    then have x: "x < width b"
      by (simp add: word_less_nat_alt loop_bound [OF inv])
    show ?thesis
    proof (cases "cell b y x")
      case False
      with valid y x have v: "visit b y x s = Some (x, s)" by (simp add: visit_unset)
      from "1.IH" [OF True v refl valid y word_succ_le [OF x] best_before_unset [OF inv x False]]
      have "row_loop b y (x + 1) s = naive_row b y (x + 1) s" .
      with True v x show ?thesis
        by (subst row_loop.simps, subst naive_row.simps) (simp add: naive_visit_eq)
    next
      case c: True
      from visit_set [OF valid y x c, of s] obtain x' e s1
        where v: "visit b y x s = Some (x', s1)"
          and s1: "s1 = (if length_final s = 0 \<or> length_final s < e - x + 1
                      then \<lparr>start_final = Some \<lparr>px = x, py = y\<rparr>,
                            end_final = Some \<lparr>px = e, py = y\<rparr>,
                            length_final = e - x + 1\<rparr>
                      else s)"
          and run: "is_run b y x e"
          and rmax: "e + 1 = width b \<and> x' = x \<or> e + 1 < width b \<and> \<not> cell b y (e + 1) \<and> x' = e + 1"
        by blast
      from best_before_set [OF inv x run rmax] s1
      have inv1: "best_before b s1 y (x' + 1)" and le: "x' + 1 \<le> width b" by simp_all
      from "1.IH" [OF True v refl valid y le inv1]
      have ih: "row_loop b y (x' + 1) s1 = naive_row b y (x' + 1) s1" .
      from run have len: "unat (e - x + 1) = run_length x e"
        by (auto simp: is_run_def intro: run_length_word)
      from s1 len have ge: "run_length x e \<le> unat (length_final s1)"
        by (auto simp: word_less_nat_alt word_unat_eq_iff)
      then have nz1: "length_final s1 \<noteq> 0" by (auto simp: run_length_def)
      from rmax x have x'w: "x' < width b" by auto
      from run have e: "e < width b" and xe: "x \<le> e" by (simp_all add: is_run_def)
      from rmax xe e have xx': "x \<le> x'" by (auto simp: word_succ_le_iff)
      then have x1: "x + 1 \<le> x' + 1"
        using unat_succ_less [OF x] unat_succ_less [OF x'w] by (simp add: word_le_nat_alt)
      have "naive_row b y (x + 1) s1 = naive_row b y (x' + 1) s1"
        using valid y x1 le nz1
      proof (rule naive_row_skip)
        fix a c assume r: "is_run b y a c" and "x + 1 \<le> a" "a < x' + 1"
        with x x'w have "x \<le> a" "a \<le> x'"
          using unat_succ_less [OF x] unat_succ_less [OF x'w]
          by (simp_all add: word_le_nat_alt word_less_nat_alt)
        from skipped_runs [OF run rmax r this] ge
        show "run_length a c \<le> unat (length_final s1)" by simp
      qed
      with True v x ih show ?thesis
        by (subst row_loop.simps, subst naive_row.simps) (simp add: naive_visit_eq)
    qed
  qed
qed

lemma col_loop_naive:
  "valid_bitmap b \<Longrightarrow> y \<le> height b \<Longrightarrow> best_before b s y 0 \<Longrightarrow>
     col_loop b y s = naive_rows b y s"
proof (induction b y s rule: col_loop.induct)
  case (1 b y s)
  show ?case
  proof (cases "y < height b")
    case False
    then show ?thesis by (subst col_loop.simps, subst naive_rows.simps) simp
  next
    case True
    from row_loop_inv [OF \<open>valid_bitmap b\<close> True _ \<open>best_before b s y 0\<close>]
    obtain s1 where r: "row_loop b y 0 s = Some s1" and inv1: "best_before b s1 (y + 1) 0"
      by auto
    from row_loop_naive [OF \<open>valid_bitmap b\<close> True _ \<open>best_before b s y 0\<close>] r
    have n: "naive_row b y 0 s = Some s1" by simp
    from "1.IH" [OF True r \<open>valid_bitmap b\<close> word_succ_le [OF True] inv1]
    have "col_loop b (y + 1) s1 = naive_rows b (y + 1) s1" .
    with True r n show ?thesis by (subst col_loop.simps, subst naive_rows.simps) simp
  qed
qed

lemma digit_char_value: "d < 10 \<Longrightarrow> digit_value (digit_char d) = d \<and> isdigit (digit_char d)"
proof -
  assume "d < 10"
  then have "d = 0 \<or> d = 1 \<or> d = 2 \<or> d = 3 \<or> d = 4 \<or> d = 5 \<or> d = 6 \<or> d = 7 \<or> d = 8 \<or> d = 9"
    by arith
  then show ?thesis
    by (auto simp: digit_char_def digit_value_def isdigit_def)
qed

lemma digit_char_zero: "d < 10 \<Longrightarrow> digit_char d = CHR ''0'' \<longleftrightarrow> d = 0"
proof -
  assume "d < 10"
  then have "d = 0 \<or> d = 1 \<or> d = 2 \<or> d = 3 \<or> d = 4 \<or> d = 5 \<or> d = 6 \<or> d = 7 \<or> d = 8 \<or> d = 9"
    by arith
  then show ?thesis
    by (auto simp: digit_char_def)
qed

lemma decimal_snoc: "decimal (ds @ [c]) = 10 * decimal ds + digit_value c"
  by (simp add: decimal_def)

lemma show_nat_decimal:
  "show_nat n \<noteq> [] \<and> (\<forall>c\<in>set (show_nat n). isdigit c) \<and> decimal (show_nat n) = n \<and>
   (n \<noteq> 0 \<longrightarrow> hd (show_nat n) \<noteq> CHR ''0'')"
proof (induction n rule: show_nat.induct)
  case (1 n)
  show ?case
  proof (cases "n < 10")
    case True
    then have "show_nat n = [digit_char n]" by (subst show_nat.simps) simp
    with True digit_char_value [OF True] digit_char_zero [OF True] show ?thesis
      by (simp add: decimal_def)
  next
    case False
    then have s: "show_nat n = show_nat (n div 10) @ [digit_char (n mod 10)]"
      by (subst show_nat.simps) simp
    have m: "n mod 10 < 10" by simp
    from False have "n div 10 \<noteq> 0" by simp
    with "1.IH" [OF False] digit_char_value [OF m] s show ?thesis
      by (simp add: decimal_snoc)
  qed
qed

lemma show_u_decimal:
  "show_u w \<noteq> [] \<and> (\<forall>c\<in>set (show_u w). isdigit c) \<and> decimal (show_u w) = unat w \<and>
   (w \<noteq> 0 \<longrightarrow> hd (show_u w) \<noteq> CHR ''0'')"
  using show_nat_decimal [of "unat w"] by (simp add: show_u_def unat_eq_0)





lemma read_pixels_Inr_iff:
  "(\<exists>ps. read_pixels n s = Inr ps) \<longleftrightarrow>
     (\<exists>vs r. pixel_tokens n s = Scanned vs r \<and> (\<forall>v\<in>set vs. v = 0 \<or> v = 1))"
proof
  assume "\<exists>ps. read_pixels n s = Inr ps"
  then show "\<exists>vs r. pixel_tokens n s = Scanned vs r \<and> (\<forall>v\<in>set vs. v = 0 \<or> v = 1)"
    using read_pixels_Inr by blast
next
  assume "\<exists>vs r. pixel_tokens n s = Scanned vs r \<and> (\<forall>v\<in>set vs. v = 0 \<or> v = 1)"
  then obtain vs r where "pixel_tokens n s = Scanned vs r" "\<forall>v\<in>set vs. v = 0 \<or> v = 1"
    by blast
  then have "read_pixels n s = Inr (map (\<lambda>v. v \<noteq> 0) vs)"
    by (subst read_pixels_tokens) simp
  then show "\<exists>ps. read_pixels n s = Inr ps" by blast
qed




section \<open>Properties of the specification\<close>

text \<open>
  C1. For every valid grid with at least one set cell, \<open>find_hline\<close> returns 0 and
  writes a line that is a maximal horizontal run of set cells: both ends on one row,
  \<open>start.x \<le> end.x\<close>, every cell between them set, and the cells next to its two ends
  unset or outside the grid. Its length \<open>end.x - start.x + 1\<close> does not wrap around and
  is at least the length of every horizontal run of set cells of the grid.
\<close>

theorem find_hline_longest_run:
  assumes "valid_bitmap b" and "has_set_cell b"
  shows "\<exists>l. find_hline b = Some (0, Some l) \<and> is_maximal_run b l \<and>
           unat (hline_length (start_pt l) (end_pt l)) =
             unat (px (end_pt l)) - unat (px (start_pt l)) + 1 \<and>
           (\<forall>y a c. is_run b y a c \<longrightarrow>
              unat c - unat a + 1 \<le> unat (hline_length (start_pt l) (end_pt l)))"
proof -
  from assms(2) obtain y0 a0 c0 where "is_run b y0 a0 c0"
    by (auto simp: has_set_cell_run)
  from find_hline_some [OF assms(1) this] obtain sx ex sy
    where f: "find_hline b =
            Some (0, Some \<lparr>start_pt = \<lparr>px = sx, py = sy\<rparr>, end_pt = \<lparr>px = ex, py = sy\<rparr>\<rparr>)"
      and run: "is_run b sy sx ex" and rmax: "ex + 1 = width b \<or> \<not> cell b sy (ex + 1)"
      and len: "unat (ex - sx + 1) = run_length sx ex"
      and best: "\<And>y a c. is_run b y a c \<Longrightarrow> run_length a c \<le> run_length sx ex"
    by blast
  from left_maximal [OF run best] have lmax: "sx = 0 \<or> \<not> cell b sy (sx - 1)" .
  let ?l = "\<lparr>start_pt = \<lparr>px = sx, py = sy\<rparr>, end_pt = \<lparr>px = ex, py = sy\<rparr>\<rparr>"
  from run rmax lmax have "is_maximal_run b ?l"
    by (simp add: is_maximal_run_def is_run_def)
  moreover from len have "unat (hline_length (start_pt ?l) (end_pt ?l)) =
             unat (px (end_pt ?l)) - unat (px (start_pt ?l)) + 1"
    by (simp add: hline_length_def run_length_def)
  moreover from best len have "\<forall>y a c. is_run b y a c \<longrightarrow>
              unat c - unat a + 1 \<le> unat (hline_length (start_pt ?l) (end_pt ?l))"
    by (simp add: hline_length_def run_length_def)
  ultimately show ?thesis using f by blast
qed

theorem find_hline_longest_run_witness:
  "valid_bitmap example_grid \<and> has_set_cell example_grid \<and>
   (\<exists>l. find_hline example_grid = Some (0, Some l) \<and> is_maximal_run example_grid l \<and>
      unat (hline_length (start_pt l) (end_pt l)) =
        unat (px (end_pt l)) - unat (px (start_pt l)) + 1 \<and>
      (\<forall>y a c. is_run example_grid y a c \<longrightarrow>
         unat c - unat a + 1 \<le> unat (hline_length (start_pt l) (end_pt l))))"
  using find_hline_longest_run [OF example_grid_valid example_grid_set]
    example_grid_valid example_grid_set by simp

text \<open>
  C2. Ties go to the run that the scan meets first. On a valid grid, for every longest
  run of set cells (row \<open>y\<close>, columns \<open>a..c\<close>), the line that \<open>find_hline\<close> returns is a run
  of the same length that lies in a row above \<open>y\<close>, or in row \<open>y\<close> and starts at column
  \<open>a\<close> or to its left. The body of the column loop replaces the best run only by a
  strictly longer one.
\<close>

theorem find_hline_first_longest:
  assumes valid: "valid_bitmap b" and run: "is_run b y a c"
    and longest: "\<forall>y' a' c'. is_run b y' a' c' \<longrightarrow> run_length a' c' \<le> run_length a c"
  shows "(\<exists>l. find_hline b = Some (0, Some l) \<and>
            py (start_pt l) = py (end_pt l) \<and>
            is_run b (py (start_pt l)) (px (start_pt l)) (px (end_pt l)) \<and>
            run_length (px (start_pt l)) (px (end_pt l)) = run_length a c \<and>
            (py (start_pt l) < y \<or> py (start_pt l) = y \<and> px (start_pt l) \<le> a)) \<and>
         (\<forall>y' x s x' s'. y' < height b \<and> x < width b \<and> visit b y' x s = Some (x', s') \<longrightarrow>
            s' = s \<or> length_final s < length_final s')"
proof -
  from find_hline_some [OF valid run] obtain sx ex sy
    where f: "find_hline b =
            Some (0, Some \<lparr>start_pt = \<lparr>px = sx, py = sy\<rparr>, end_pt = \<lparr>px = ex, py = sy\<rparr>\<rparr>)"
      and r: "is_run b sy sx ex"
      and best: "\<And>y a c. is_run b y a c \<Longrightarrow>
             run_length a c \<le> run_length sx ex \<and>
             (run_length a c = run_length sx ex \<longrightarrow> \<not> before y a sy sx)"
    by blast
  from longest r have "run_length sx ex \<le> run_length a c" by blast
  with best [OF run] have eq: "run_length sx ex = run_length a c"
    and nb: "\<not> before y a sy sx" by auto
  from nb have "sy < y \<or> sy = y \<and> sx \<le> a" by (auto simp: before_def)
  with f r eq have "\<exists>l. find_hline b = Some (0, Some l) \<and>
            py (start_pt l) = py (end_pt l) \<and>
            is_run b (py (start_pt l)) (px (start_pt l)) (px (end_pt l)) \<and>
            run_length (px (start_pt l)) (px (end_pt l)) = run_length a c \<and>
            (py (start_pt l) < y \<or> py (start_pt l) = y \<and> px (start_pt l) \<le> a)"
    by simp
  moreover have "\<forall>y' x s x' s'. y' < height b \<and> x < width b \<and> visit b y' x s = Some (x', s') \<longrightarrow>
            s' = s \<or> length_final s < length_final s'"
    using visit_strict [OF valid] by blast
  ultimately show ?thesis by blast
qed

theorem find_hline_first_longest_witness:
  "valid_bitmap tie_grid \<and> is_run tie_grid 1 0 0 \<and>
   find_hline tie_grid =
     Some (0, Some \<lparr>start_pt = \<lparr>px = 0, py = 0\<rparr>, end_pt = \<lparr>px = 0, py = 0\<rparr>\<rparr>) \<and>
   (\<exists>l. find_hline tie_grid = Some (0, Some l) \<and>
        py (start_pt l) = py (end_pt l) \<and>
        is_run tie_grid (py (start_pt l)) (px (start_pt l)) (px (end_pt l)) \<and>
        run_length (px (start_pt l)) (px (end_pt l)) = run_length 0 0 \<and>
        (py (start_pt l) < 1 \<or> py (start_pt l) = 1 \<and> px (start_pt l) \<le> 0))"
proof -
  have r: "is_run tie_grid 1 0 0"
    by (simp add: is_run_def tie_grid_cells) (simp add: tie_grid_def)
  have l: "\<forall>y' a' c'. is_run tie_grid y' a' c' \<longrightarrow> run_length a' c' \<le> run_length 0 0"
    using tie_grid_runs by (auto simp: run_length_def)
  have f: "find_hline tie_grid =
     Some (0, Some \<lparr>start_pt = \<lparr>px = 0, py = 0\<rparr>, end_pt = \<lparr>px = 0, py = 0\<rparr>\<rparr>)"
    by (simp add: find_hline_def tie_grid_def col_loop.simps row_loop.simps visit_def
        extend_run.simps pixel_at_def search_init_def hline_length_def Let_def)
  from find_hline_first_longest [OF tie_grid_valid r l] tie_grid_valid r f
  show ?thesis by blast
qed

text \<open>
  C3. On every valid grid \<open>find_hline\<close> returns, and it returns what the scan without the
  skips returns: the same return value and the same line. The grid of the scenario,
  whose longest run ends in the last column of its row, is an instance.
\<close>

theorem find_hline_naive:
  assumes "valid_bitmap b"
  shows "find_hline b = naive_hline b \<and> (\<exists>rc line. find_hline b = Some (rc, line))"
proof -
  from col_loop_naive [OF assms _ best_before_init]
  have "col_loop b 0 search_init = naive_rows b 0 search_init" by simp
  then have eq: "find_hline b = naive_hline b" by (simp add: find_hline_def naive_hline_def)
  have "\<exists>rc line. find_hline b = Some (rc, line)"
  proof (cases "has_set_cell b")
    case False
    with find_hline_iff [OF assms] show ?thesis by simp
  next
    case True
    then obtain y a c where "is_run b y a c" by (auto simp: has_set_cell_run)
    from find_hline_some [OF assms this] show ?thesis by blast
  qed
  with eq show ?thesis by simp
qed

theorem find_hline_naive_witness:
  "valid_bitmap example_grid \<and>
   find_hline example_grid = naive_hline example_grid \<and>
   naive_hline example_grid =
     Some (0, Some \<lparr>start_pt = \<lparr>px = 0, py = 1\<rparr>, end_pt = \<lparr>px = 2, py = 1\<rparr>\<rparr>)"
  using find_hline_naive [OF example_grid_valid] example_grid_valid find_hline_example
  by simp

text \<open>
  C4. On a valid grid \<open>find_hline\<close> returns 1 exactly when no cell is set. When the
  loader returns such a grid, the command \<^verbatim>\<open>hline\<close> prints \<^verbatim>\<open>No line found\<close> and a newline
  on the error stream, prints nothing on the standard output and exits 1 if no cell is
  set. Otherwise it exits 0, prints nothing on the error stream, and prints on the
  standard output the line that the search found: the row and the column of its start,
  the row and the column of its end, separated by single spaces and followed by a
  newline. Each number is printed in decimal digits without a leading zero.
\<close>

theorem hline_not_found_iff:
  assumes "valid_bitmap b"
  shows "(find_hline b = Some (1, None) \<longleftrightarrow> \<not> has_set_cell b) \<and>
         (load_bitmap e f = Inr b \<longrightarrow>
            (if has_set_cell b
             then \<exists>l. find_hline b = Some (0, Some l) \<and>
                      main e [prog, ''hline'', f] =
                        Exit 0
                          (show_u (py (start_pt l)) @ '' '' @ show_u (px (start_pt l)) @ '' '' @
                           show_u (py (end_pt l)) @ '' '' @ show_u (px (end_pt l)) @ [CHR 0x0A])
                          []
             else main e [prog, ''hline'', f] = Exit 1 [] (''No line found'' @ [CHR 0x0A]))) \<and>
         (\<forall>w. show_u w \<noteq> [] \<and> (\<forall>c\<in>set (show_u w). c \<in> set ''0123456789'') \<and>
              decimal (show_u w) = unat w \<and> (w \<noteq> 0 \<longrightarrow> hd (show_u w) \<noteq> CHR ''0''))"
proof -
  have digits: "\<forall>w. show_u w \<noteq> [] \<and> (\<forall>c\<in>set (show_u w). c \<in> set ''0123456789'') \<and>
              decimal (show_u w) = unat w \<and> (w \<noteq> 0 \<longrightarrow> hd (show_u w) \<noteq> CHR ''0'')"
    using show_u_decimal by (simp add: isdigit_def)
  show ?thesis
  proof (cases "has_set_cell b")
    case False
    with find_hline_iff [OF assms] have "find_hline b = Some (1, None)" by simp
    with False digits show ?thesis by (simp add: main_hline newline_def)
  next
    case True
    then obtain y a c where "is_run b y a c" by (auto simp: has_set_cell_run)
    from find_hline_some [OF assms this] obtain l where "find_hline b = Some (0, Some l)"
      by blast
    with True find_hline_iff [OF assms] digits show ?thesis
      by (simp add: main_hline print_line_def newline_def)
  qed
qed

theorem hline_not_found_iff_witness:
  "valid_bitmap blank_grid \<and> \<not> has_set_cell blank_grid \<and>
   load_bitmap scenario_env ''blank.txt'' = Inr blank_grid \<and>
   find_hline blank_grid = Some (1, None) \<and>
   main scenario_env [''figsearch'', ''hline'', ''blank.txt''] =
     Exit 1 [] (''No line found'' @ [CHR 0x0A]) \<and>
   valid_bitmap example_grid \<and> has_set_cell example_grid \<and>
   load_bitmap scenario_env ''grid.txt'' = Inr example_grid \<and>
   find_hline example_grid =
     Some (0, Some \<lparr>start_pt = \<lparr>px = 0, py = 1\<rparr>, end_pt = \<lparr>px = 2, py = 1\<rparr>\<rparr>) \<and>
   main scenario_env [''figsearch'', ''hline'', ''grid.txt''] =
     Exit 0 (''1 0 1 2'' @ [CHR 0x0A]) [] \<and>
   show_u 4294967295 = ''4294967295''"
proof -
  have g: "load_bitmap scenario_env ''grid.txt'' = Inr example_grid"
    by (rule load_scenario) (simp_all add: scenario_env_def)
  note b = hline_not_found_iff [OF blank_grid_valid, of scenario_env "''blank.txt''" "''figsearch''"]
  note x = hline_not_found_iff [OF example_grid_valid, of scenario_env "''grid.txt''" "''figsearch''"]
  from b blank_grid_unset load_blank
  have 1: "find_hline blank_grid = Some (1, None)"
    and 2: "main scenario_env [''figsearch'', ''hline'', ''blank.txt''] =
              Exit 1 [] (''No line found'' @ [CHR 0x0A])"
    by simp_all
  from x example_grid_set g obtain l where l: "find_hline example_grid = Some (0, Some l)"
    and m: "main scenario_env [''figsearch'', ''hline'', ''grid.txt''] =
              Exit 0
                (show_u (py (start_pt l)) @ '' '' @ show_u (px (start_pt l)) @ '' '' @
                 show_u (py (end_pt l)) @ '' '' @ show_u (px (end_pt l)) @ [CHR 0x0A]) []"
    by auto
  from l find_hline_example
  have l': "l = \<lparr>start_pt = \<lparr>px = 0, py = 1\<rparr>, end_pt = \<lparr>px = 2, py = 1\<rparr>\<rparr>" by simp
  have 3: "main scenario_env [''figsearch'', ''hline'', ''grid.txt''] =
     Exit 0 (''1 0 1 2'' @ [CHR 0x0A]) []"
    unfolding m l' by (simp add: show_u_def show_nat.simps digit_char_def)
  have 4: "show_u 4294967295 = ''4294967295''"
    by (simp add: show_u_def show_nat.simps digit_char_def)
  from 1 2 3 4 g blank_grid_valid blank_grid_unset load_blank example_grid_valid
    example_grid_set find_hline_example
  show ?thesis by simp
qed

text \<open>
  C5. When the loader returns a grid, the first number of the source is the height of
  the grid and the second its width. The loader has read exactly \<open>height * width mod 2^32\<close>
  pixel tokens after them, in the order of the text, and the cells of the grid are these
  tokens in that order. When \<open>height * width < 2^32\<close> the grid is valid and its cell of
  row \<open>y\<close>, column \<open>x\<close>, which is \<^verbatim>\<open>data[y * width + x]\<close>, is the token number
  \<open>y * width + x\<close> for every \<open>y < height\<close> and \<open>x < width\<close>.
\<close>

theorem load_bitmap_cells:
  assumes "load_bitmap e f = Inr b"
  shows "\<exists>src r1 rest vs r2.
           files e f = Some src \<and>
           scan_u src = Scanned (height b) r1 \<and> scan_u r1 = Scanned (width b) rest \<and>
           pixel_tokens ((unat (height b) * unat (width b)) mod 2 ^ 32) rest = Scanned vs r2 \<and>
           length vs = (unat (height b) * unat (width b)) mod 2 ^ 32 \<and>
           data b = map (\<lambda>v. v \<noteq> 0) vs \<and>
           (unat (height b) * unat (width b) < 2 ^ 32 \<longrightarrow>
              valid_bitmap b \<and> length vs = unat (height b) * unat (width b) \<and>
              (\<forall>y x. y < height b \<and> x < width b \<longrightarrow>
                 unat y * unat (width b) + unat x < length vs \<and>
                 cell b y x = (vs ! (unat y * unat (width b) + unat x) \<noteq> 0)))"
proof -
  let ?w = "width b" and ?h = "height b"
  have m: "unat (?w * ?h) = (unat ?h * unat ?w) mod 2 ^ 32"
    by (simp add: unat_word_ariths mult.commute)
  from load_bitmap_Inr [OF assms] obtain src rest vs r
    where src: "files e f = Some src" and sc: "scan_u_u src = Scanned (?h, ?w) rest"
      and nz: "?h \<noteq> 0" "?w \<noteq> 0"
      and tk: "pixel_tokens (unat (?w * ?h)) rest = Scanned vs r"
      and d: "data b = map (\<lambda>v. v \<noteq> 0) vs"
    by blast
  from sc obtain r1 where s1: "scan_u src = Scanned ?h r1" and s2: "scan_u r1 = Scanned ?w rest"
    by (auto simp: scan_u_u_Scanned)
  from pixel_tokens_length [OF tk] have len: "length vs = unat (?w * ?h)" .
  have small: "valid_bitmap b \<and> length vs = unat ?h * unat ?w \<and>
              (\<forall>y x. y < ?h \<and> x < ?w \<longrightarrow>
                 unat y * unat ?w + unat x < length vs \<and>
                 cell b y x = (vs ! (unat y * unat ?w + unat x) \<noteq> 0))"
    if lt: "unat ?h * unat ?w < 2 ^ 32"
  proof -
    from lt m len have l: "length vs = unat ?h * unat ?w" by simp
    from nz have pos: "0 < ?w" "0 < ?h" by (simp_all add: word_neq_0_conv)
    with l d have valid: "valid_bitmap b" by (simp add: valid_bitmap_def mult.commute)
    have "unat y * unat ?w + unat x < length vs \<and>
          cell b y x = (vs ! (unat y * unat ?w + unat x) \<noteq> 0)"
      if yx: "y < ?h \<and> x < ?w" for y x
    proof -
      from lt have le: "unat ?w * unat ?h \<le> 4294967296" by (simp add: mult.commute)
      from yx have i: "unat (y * ?w + x) = unat y * unat ?w + unat x"
        using row_major_index [OF le] by simp
      from yx index_in_range [OF valid] have "unat (y * ?w + x) < length (data b)" by simp
      with i d show ?thesis by (simp add: cell_def)
    qed
    with valid l show ?thesis by blast
  qed
  from src s1 s2 tk len d m small show ?thesis by auto
qed

theorem load_bitmap_cells_witness:
  "load_bitmap scenario_env ''grid.txt'' = Inr example_grid \<and>
   (\<exists>src r1 rest vs r2.
      files scenario_env ''grid.txt'' = Some src \<and>
      scan_u src = Scanned (height example_grid) r1 \<and>
      scan_u r1 = Scanned (width example_grid) rest \<and>
      pixel_tokens ((unat (height example_grid) * unat (width example_grid)) mod 2 ^ 32) rest =
        Scanned vs r2 \<and>
      length vs = 6 \<and> data example_grid = map (\<lambda>v. v \<noteq> 0) vs \<and>
      valid_bitmap example_grid \<and>
      cell example_grid 1 2 = (vs ! (unat (1 :: u32) * unat (width example_grid) + unat (2 :: u32)) \<noteq> 0))"
proof -
  have g: "load_bitmap scenario_env ''grid.txt'' = Inr example_grid"
    by (rule load_scenario) (simp_all add: scenario_env_def)
  have small: "unat (height example_grid) * unat (width example_grid) < 2 ^ 32"
    and dims: "(1 :: u32) < height example_grid \<and> (2 :: u32) < width example_grid"
    and six: "(unat (height example_grid) * unat (width example_grid)) mod 2 ^ 32 = 6"
    by (simp_all add: example_grid_def)
  from load_bitmap_cells [OF g] obtain src r1 rest vs r2 where
    *: "files scenario_env ''grid.txt'' = Some src"
      "scan_u src = Scanned (height example_grid) r1"
      "scan_u r1 = Scanned (width example_grid) rest"
      "pixel_tokens ((unat (height example_grid) * unat (width example_grid)) mod 2 ^ 32) rest =
        Scanned vs r2"
      "length vs = (unat (height example_grid) * unat (width example_grid)) mod 2 ^ 32"
      "data example_grid = map (\<lambda>v. v \<noteq> 0) vs"
    and **: "unat (height example_grid) * unat (width example_grid) < 2 ^ 32 \<longrightarrow>
              valid_bitmap example_grid \<and>
              length vs = unat (height example_grid) * unat (width example_grid) \<and>
              (\<forall>y x. y < height example_grid \<and> x < width example_grid \<longrightarrow>
                 unat y * unat (width example_grid) + unat x < length vs \<and>
                 cell example_grid y x = (vs ! (unat y * unat (width example_grid) + unat x) \<noteq> 0))"
    by blast
  from ** small dims have "valid_bitmap example_grid"
    "cell example_grid 1 2 = (vs ! (unat (1 :: u32) * unat (width example_grid) + unat (2 :: u32)) \<noteq> 0)"
    by blast+
  with g * six show ?thesis by auto
qed

text \<open>
  Without the bound on the product the cells need not exist: the source
  \<^verbatim>\<open>"65536 65536"\<close> is loaded as a grid of height and width 65536 with no cell at all, so
  that already \<^verbatim>\<open>data[0 * width + 0]\<close> is outside the data.
\<close>

theorem load_bitmap_cells_counterexample:
  "files scenario_env ''big.txt'' = Some ''65536 65536'' \<and>
   load_bitmap scenario_env ''big.txt'' = Inr \<lparr>width = 65536, height = 65536, data = []\<rparr> \<and>
   pixel_at \<lparr>width = 65536, height = 65536, data = []\<rparr> (0 * 65536 + 0) = None"
  by (simp add: load_bitmap_read scan_defs scenario_env_def pixel_at_def)




text \<open>
  C7. For the source \<^verbatim>\<open>"2 3\n0 1 1\n1 1 1"\<close> the loader returns the grid of height 2 and
  width 3, the search returns the row-1 run from column 0 to column 2, and the command
  \<^verbatim>\<open>hline\<close> prints \<^verbatim>\<open>1 0 1 2\<close> and a newline on the standard output and exits 0.
\<close>

theorem scenario_hline:
  assumes "files e f = Some (''2 3'' @ newline @ ''0 1 1'' @ newline @ ''1 1 1'')"
    and "malloc_ok e 14"
  shows "load_bitmap e f = Inr example_grid \<and>
         height example_grid = 2 \<and> width example_grid = 3 \<and>
         find_hline example_grid =
           Some (0, Some \<lparr>start_pt = \<lparr>px = 0, py = 1\<rparr>, end_pt = \<lparr>px = 2, py = 1\<rparr>\<rparr>) \<and>
         main e [prog, ''hline'', f] = Exit 0 (''1 0 1 2'' @ newline) []"
proof -
  from assms have l: "load_bitmap e f = Inr example_grid" by (rule load_scenario)
  then have "main e [prog, ''hline'', f] = Exit 0 (''1 0 1 2'' @ newline) []"
    by (simp add: main_hline find_hline_example print_line_example)
  with l show ?thesis
    by (simp add: find_hline_example) (simp add: example_grid_def)
qed

theorem scenario_hline_witness:
  "load_bitmap scenario_env ''grid.txt'' = Inr example_grid \<and>
   height example_grid = 2 \<and> width example_grid = 3 \<and>
   main scenario_env [''figsearch'', ''hline'', ''grid.txt''] = Exit 0 (''1 0 1 2'' @ newline) []"
proof -
  have "files scenario_env ''grid.txt'' = Some (''2 3'' @ newline @ ''0 1 1'' @ newline @ ''1 1 1'')"
    and "malloc_ok scenario_env 14"
    by (simp_all add: scenario_env_def)
  from scenario_hline [OF this, of "''figsearch''"] show ?thesis by simp
qed

text \<open>
  C8. The command dispatcher. With one or two arguments after the program name,
  \<^verbatim>\<open>--help\<close> prints the five lines of the usage text on the standard output and
  exits 0; \<^verbatim>\<open>test\<close> or \<^verbatim>\<open>hline\<close> without a file name
  prints \<^verbatim>\<open>Filename required\<close> on the error stream and exits 1; any other verb prints
  \<^verbatim>\<open>Invalid command\<close> and exits 1. With no argument or more than two, it prints
  \<^verbatim>\<open>Invalid arguments\<close> and exits 1. The missing file name has a diagnostic of its own.
\<close>

theorem main_dispatch:
  "((length argv = 2 \<or> length argv = 3) \<and> argv ! 1 = ''--help'' \<longrightarrow>
      main e argv =
        Exit 0
          (''Usage: figsearch COMMAND [FILE]'' @ [CHR 0x0A] @
           ''Commands:'' @ [CHR 0x0A] @
           ''  --help   Display this help message'' @ [CHR 0x0A] @
           ''  test     Check if the file contains valid bitmap'' @ [CHR 0x0A] @
           ''  hline    Find longest horizontal line'' @ [CHR 0x0A])
          []) \<and>
   (length argv = 2 \<and> (argv ! 1 = ''test'' \<or> argv ! 1 = ''hline'') \<longrightarrow>
      main e argv = Exit 1 [] (''Filename required'' @ [CHR 0x0A])) \<and>
   ((length argv = 2 \<or> length argv = 3) \<and>
    argv ! 1 \<noteq> ''--help'' \<and> argv ! 1 \<noteq> ''test'' \<and> argv ! 1 \<noteq> ''hline'' \<longrightarrow>
      main e argv = Exit 1 [] (''Invalid command'' @ [CHR 0x0A])) \<and>
   (length argv < 2 \<or> length argv > 3 \<longrightarrow>
      main e argv = Exit 1 [] (''Invalid arguments'' @ [CHR 0x0A])) \<and>
   ''Filename required'' @ [CHR 0x0A] \<noteq> ''Invalid command'' @ [CHR 0x0A] \<and>
   ''Filename required'' @ [CHR 0x0A] \<noteq> ''Invalid arguments'' @ [CHR 0x0A]"
  by (auto simp: main_def get_filename_def Let_def print_help_def newline_def)

theorem main_dispatch_witness:
  "main scenario_env [''figsearch'', ''--help''] =
     Exit 0
       (''Usage: figsearch COMMAND [FILE]'' @ [CHR 0x0A] @
        ''Commands:'' @ [CHR 0x0A] @
        ''  --help   Display this help message'' @ [CHR 0x0A] @
        ''  test     Check if the file contains valid bitmap'' @ [CHR 0x0A] @
        ''  hline    Find longest horizontal line'' @ [CHR 0x0A])
       [] \<and>
   main scenario_env [''figsearch'', ''--help'', ''grid.txt''] =
     Exit 0
       (''Usage: figsearch COMMAND [FILE]'' @ [CHR 0x0A] @
        ''Commands:'' @ [CHR 0x0A] @
        ''  --help   Display this help message'' @ [CHR 0x0A] @
        ''  test     Check if the file contains valid bitmap'' @ [CHR 0x0A] @
        ''  hline    Find longest horizontal line'' @ [CHR 0x0A])
       [] \<and>
   main scenario_env [''figsearch'', ''hline''] = Exit 1 [] (''Filename required'' @ [CHR 0x0A]) \<and>
   main scenario_env [''figsearch'', ''test''] = Exit 1 [] (''Filename required'' @ [CHR 0x0A]) \<and>
   main scenario_env [''figsearch'', ''vline'', ''grid.txt''] =
     Exit 1 [] (''Invalid command'' @ [CHR 0x0A]) \<and>
   main scenario_env [''figsearch''] = Exit 1 [] (''Invalid arguments'' @ [CHR 0x0A]) \<and>
   main scenario_env [''figsearch'', ''hline'', ''grid.txt'', ''more''] =
     Exit 1 [] (''Invalid arguments'' @ [CHR 0x0A])"
  using main_dispatch [of "[''figsearch'', ''--help'']" scenario_env]
    main_dispatch [of "[''figsearch'', ''--help'', ''grid.txt'']" scenario_env]
    main_dispatch [of "[''figsearch'', ''hline'']" scenario_env]
    main_dispatch [of "[''figsearch'', ''test'']" scenario_env]
    main_dispatch [of "[''figsearch'', ''vline'', ''grid.txt'']" scenario_env]
    main_dispatch [of "[''figsearch'']" scenario_env]
    main_dispatch [of "[''figsearch'', ''hline'', ''grid.txt'', ''more'']" scenario_env]
  by simp

text \<open>
  C9. Whenever the condition of the column loop is evaluated during \<open>find_hline\<close>,
  \<open>length_final\<close> is at most the width of the grid, so the unsigned subtraction
  \<^verbatim>\<open>bitmap->width - length_final\<close> does not wrap around. This holds for every grid, also one
  whose data are too short: the search then stops at the read outside the data.
\<close>

theorem loop_bound_never_wraps:
  assumes "cond_evaluated b y x s"
  shows "length_final s \<le> width b \<and>
         unat (width b - length_final s) = unat (width b) - unat (length_final s)"
proof -
  from assms have "length_final s \<le> width b"
  proof (induction rule: cond_evaluated.induct)
    case enter
    show ?case by (simp add: search_init_def)
  next
    case (next_column y x s x' s')
    from next_column.IH have "unat (width b - length_final s) = unat (width b) - unat (length_final s)"
      by (rule unat_sub)
    with next_column.hyps(2) have "x < width b" by (simp add: word_less_nat_alt)
    from visit_length [OF next_column.hyps(3) this next_column.IH] show ?case .
  next
    case (next_row y x s)
    then show ?case by simp
  qed
  then show ?thesis by (simp add: unat_sub)
qed

theorem loop_bound_never_wraps_witness:
  "cond_evaluated example_grid 1 0
     \<lparr>start_final = Some \<lparr>px = 1, py = 0\<rparr>, end_final = Some \<lparr>px = 2, py = 0\<rparr>,
      length_final = 2\<rparr> \<and>
   (2 :: u32) \<le> width example_grid \<and>
   unat (width example_grid - 2) = unat (width example_grid) - unat (2 :: u32)"
proof -
  let ?s = "\<lparr>start_final = Some \<lparr>px = 1, py = 0\<rparr>, end_final = Some \<lparr>px = 2, py = 0\<rparr>,
      length_final = 2\<rparr>"
  have c0: "cond_evaluated example_grid 0 0 search_init"
    by (rule cond_evaluated.enter) (simp add: example_grid_def)
  have "cond_evaluated example_grid 0 (0 + 1) search_init"
    by (rule cond_evaluated.next_column [OF c0])
       (simp_all add: example_grid_def search_init_def visit_def pixel_at_def)
  then have c1: "cond_evaluated example_grid 0 1 search_init" by simp
  have "cond_evaluated example_grid 0 (1 + 1) ?s"
    by (rule cond_evaluated.next_column [OF c1])
       (simp_all add: example_grid_def search_init_def visit_def pixel_at_def
          extend_run.simps hline_length_def)
  then have c2: "cond_evaluated example_grid 0 2 ?s" by simp
  have "cond_evaluated example_grid (0 + 1) 0 ?s"
    by (rule cond_evaluated.next_row [OF c2]) (simp_all add: example_grid_def)
  then have c3: "cond_evaluated example_grid 1 0 ?s" by simp
  from loop_bound_never_wraps [OF c3] c3 show ?thesis by simp
qed

text \<open>
  C10. The number of pixel tokens is the \<^verbatim>\<open>unsigned\<close> product \<^verbatim>\<open>width * height\<close>, that is
  the product modulo \<open>2^32\<close>: a grid that the loader returns has that many cells, read
  from that many tokens. With height 65536 and width 65536 the product is 0 modulo
  \<open>2^32\<close>, and the source \<^verbatim>\<open>"65536 65536"\<close>, which has no pixel token, is accepted.
\<close>

theorem load_bitmap_area_wraps:
  "(load_bitmap e f = Inr b \<longrightarrow>
      length (data b) = (unat (width b) * unat (height b)) mod 2 ^ 32 \<and>
      (\<exists>src rest vs r. files e f = Some src \<and>
         scan_u_u src = Scanned (height b, width b) rest \<and>
         pixel_tokens ((unat (width b) * unat (height b)) mod 2 ^ 32) rest = Scanned vs r \<and>
         data b = map (\<lambda>v. v \<noteq> 0) vs)) \<and>
   (files e f = Some ''65536 65536'' \<and> malloc_ok e 8 \<longrightarrow>
      load_bitmap e f = Inr \<lparr>width = 65536, height = 65536, data = []\<rparr>)"
proof (intro conjI impI)
  assume l: "load_bitmap e f = Inr b"
  have m: "unat (width b * height b) = (unat (width b) * unat (height b)) mod 2 ^ 32"
    by (simp add: unat_word_ariths)
  from load_bitmap_Inr [OF l] obtain src rest vs r
    where *: "files e f = Some src" "scan_u_u src = Scanned (height b, width b) rest"
      "pixel_tokens (unat (width b * height b)) rest = Scanned vs r"
      "data b = map (\<lambda>v. v \<noteq> 0) vs"
    by blast
  from * pixel_tokens_length [OF *(3)] m
  show "length (data b) = (unat (width b) * unat (height b)) mod 2 ^ 32" by simp
  from * m show "\<exists>src rest vs r. files e f = Some src \<and>
         scan_u_u src = Scanned (height b, width b) rest \<and>
         pixel_tokens ((unat (width b) * unat (height b)) mod 2 ^ 32) rest = Scanned vs r \<and>
         data b = map (\<lambda>v. v \<noteq> 0) vs"
    by auto
next
  assume "files e f = Some ''65536 65536'' \<and> malloc_ok e 8"
  then show "load_bitmap e f = Inr \<lparr>width = 65536, height = 65536, data = []\<rparr>"
    by (simp add: load_bitmap_read scan_defs)
qed

theorem load_bitmap_area_wraps_witness:
  "files scenario_env ''big.txt'' = Some ''65536 65536'' \<and> malloc_ok scenario_env 8 \<and>
   load_bitmap scenario_env ''big.txt'' = Inr \<lparr>width = 65536, height = 65536, data = []\<rparr> \<and>
   length (data \<lparr>width = 65536, height = 65536, data = []\<rparr>) =
     (unat (65536 :: u32) * unat (65536 :: u32)) mod 2 ^ 32"
proof -
  have h: "files scenario_env ''big.txt'' = Some ''65536 65536'' \<and> malloc_ok scenario_env 8"
    by (simp add: scenario_env_def)
  with load_bitmap_area_wraps [of scenario_env "''big.txt''"
      "\<lparr>width = 65536, height = 65536, data = []\<rparr>"]
  show ?thesis by simp
qed

end
